theory Spec2Isabelle
  imports Complex_Main
begin

section \<open>Python values: exceptions and numbers\<close>

text \<open>
  The script \<^verbatim>\<open>scripts/generate-icon.py\<close> is modelled function by function.  Every
  exception the code can raise is a value of \<open>error\<close>; a computation that may raise
  returns \<open>error + 'a\<close> with \<open>Inl\<close> for the exception.
\<close>

datatype error =
  ImportError | CalledProcessError | NameError | ZeroDivisionError | ValueError | IndexError

definition bindE :: "error + 'a \<Rightarrow> ('a \<Rightarrow> error + 'b) \<Rightarrow> error + 'b" where
  "bindE m f = (case m of Inl e \<Rightarrow> Inl e | Inr v \<Rightarrow> f v)"

text \<open>\<open>for x in xs: body\<close> over a state; the first exception leaves the loop.\<close>

fun for_each :: "'a list \<Rightarrow> ('a \<Rightarrow> 's \<Rightarrow> error + 's) \<Rightarrow> 's \<Rightarrow> error + 's" where
  "for_each [] body s = Inr s"
| "for_each (i # is) body s = bindE (body i s) (for_each is body)"

subsection \<open>Floats\<close>

text \<open>
  A Python \<open>float\<close> is an IEEE-754 binary64 number.  Its finite values are rationals, and
  every arithmetic operation returns the exact result rounded to the nearest number with a
  53-bit significand, ties to the even significand.  \<open>fl\<close> is that rounding, on \<open>rat\<close>.
  The exponent range is not bounded here: \<open>fl\<close> is binary64 rounding for every magnitude
  in the normal range of the format (from \<^verbatim>\<open>2**-1022\<close> up to \<^verbatim>\<open>2**1024\<close>), which covers
  all values the script computes from a canvas dimension an image can be allocated for.

  \<open>ilog2 n\<close> is the position of the leading bit of \<open>n \<ge> 1\<close>, \<open>bexp x\<close> the binary
  exponent \<open>e\<close> of \<open>x > 0\<close> (\<open>2 powi e \<le> x < 2 powi (e + 1)\<close>), \<open>rne\<close> rounds to the
  nearest integer, ties to even.
\<close>

function ilog2 :: "int \<Rightarrow> nat" where
  "ilog2 n = (if n < 2 then 0 else Suc (ilog2 (n div 2)))"
  by pat_completeness auto
termination
  by (relation "measure nat") auto

declare ilog2.simps [simp del]

definition bexp :: "rat \<Rightarrow> int" where
  "bexp x = (if 1 \<le> x then int (ilog2 \<lfloor>x\<rfloor>)
             else - int (Suc (ilog2 (\<lceil>1 / x\<rceil> - 1))))"

definition rne :: "rat \<Rightarrow> int" where
  "rne r = (let f = \<lfloor>r\<rfloor>; d = r - of_int f
            in if d < 1 / 2 then f
               else if 1 / 2 < d then f + 1
               else if even f then f else f + 1)"

definition fl_pos :: "rat \<Rightarrow> rat" where
  "fl_pos x = (let u = 2 powi (bexp x - 52) in of_int (rne (x / u)) * u)"

definition fl :: "rat \<Rightarrow> rat" where
  "fl x = (if x = 0 then 0 else if 0 < x then fl_pos x else - fl_pos (- x))"

text \<open>A float literal such as \<^verbatim>\<open>0.22\<close> denotes the double nearest to the decimal.\<close>

definition float_lit :: "rat \<Rightarrow> rat" where
  "float_lit d = fl d"

text \<open>\<open>float(n)\<close>, applied implicitly when an \<open>int\<close> meets a \<open>float\<close> in an operation.\<close>

definition float_of_int :: "int \<Rightarrow> rat" where
  "float_of_int n = fl (of_int n)"

definition fadd :: "rat \<Rightarrow> rat \<Rightarrow> rat" where
  "fadd x y = fl (x + y)"

definition fsub :: "rat \<Rightarrow> rat \<Rightarrow> rat" where
  "fsub x y = fl (x - y)"

definition fmul :: "rat \<Rightarrow> rat \<Rightarrow> rat" where
  "fmul x y = fl (x * y)"

definition fdiv :: "rat \<Rightarrow> rat \<Rightarrow> error + rat" where
  "fdiv x y = (if y = 0 then Inl ZeroDivisionError else Inr (fl (x / y)))"

text \<open>\<open>a / b\<close> on two \<open>int\<close>s: true division, the exact quotient rounded once.\<close>

definition int_truediv :: "int \<Rightarrow> int \<Rightarrow> error + rat" where
  "int_truediv a b = (if b = 0 then Inl ZeroDivisionError else Inr (fl (of_int a / of_int b)))"

text \<open>\<open>int(x)\<close> on a float truncates toward zero.\<close>

definition py_int :: "rat \<Rightarrow> int" where
  "py_int r = (if 0 \<le> r then \<lfloor>r\<rfloor> else \<lceil>r\<rceil>)"

text \<open>
  \<open>math.sqrt\<close> is the correctly rounded square root and raises \<open>ValueError\<close> below zero.
  \<open>isqrt\<close> is the integer square root; \<open>sqrt_rn x\<close> takes the 53-bit integer part \<open>m\<close> of
  the root in units of \<open>u\<close> and rounds up when \<open>x\<close> lies above the square of \<open>(m + 1/2) u\<close>.
\<close>

function isqrt :: "int \<Rightarrow> int" where
  "isqrt n = (if n < 1 then 0
              else let r = 2 * isqrt (n div 4)
                   in if (r + 1) * (r + 1) \<le> n then r + 1 else r)"
  by pat_completeness auto
termination
  by (relation "measure nat") auto

declare isqrt.simps [simp del]

definition sqrt_rn :: "rat \<Rightarrow> rat" where
  "sqrt_rn x =
     (if x \<le> 0 then 0
      else let u = 2 powi (bexp x div 2 - 52);
               s = x / (u * u);
               m = isqrt \<lfloor>s\<rfloor>;
               c = (of_int m + 1 / 2) * (of_int m + 1 / 2)
           in of_int (if s < c then m
                      else if c < s then m + 1
                      else if even m then m else m + 1) * u)"

definition math_sqrt :: "rat \<Rightarrow> error + rat" where
  "math_sqrt x = (if x < 0 then Inl ValueError else Inr (sqrt_rn x))"


section \<open>Images and the imaging library\<close>

text \<open>
  A Pillow image is its size and its pixel data.  Mode \<open>L\<close> holds one integer per pixel,
  mode \<open>RGBA\<close> four.  Pixels are addressed \<open>(x, y)\<close>, origin top left.
\<close>

type_synonym rgba = "int \<times> int \<times> int \<times> int"

record 'a image =
  width :: nat
  height :: nat
  pix :: "nat \<times> nat \<Rightarrow> 'a"

definition alpha :: "rgba \<Rightarrow> int" where
  "alpha c = (case c of (r, g, b, a) \<Rightarrow> a)"

definition set_alpha :: "rgba \<Rightarrow> int \<Rightarrow> rgba" where
  "set_alpha c a' = (case c of (r, g, b, a) \<Rightarrow> (r, g, b, a'))"

text \<open>\<^verbatim>\<open>Image.new(mode, (w, h), color)\<close>\<close>

definition Image_new :: "nat \<Rightarrow> nat \<Rightarrow> 'a \<Rightarrow> 'a image" where
  "Image_new w h c = \<lparr>width = w, height = h, pix = (\<lambda>p. c)\<rparr>"

text \<open>\<^verbatim>\<open>img.putpixel((x, y), c)\<close> raises \<open>IndexError\<close> outside the image.\<close>

definition putpixel :: "'a image \<Rightarrow> nat \<times> nat \<Rightarrow> 'a \<Rightarrow> error + 'a image" where
  "putpixel img p c =
     (if fst p < width img \<and> snd p < height img
      then Inr (img\<lparr>pix := (pix img)(p := c)\<rparr>)
      else Inl IndexError)"

text \<open>\<^verbatim>\<open>img.putalpha(mask)\<close> replaces the alpha band; the sizes must agree.\<close>

definition putalpha :: "rgba image \<Rightarrow> int image \<Rightarrow> error + rgba image" where
  "putalpha img m =
     (if width m = width img \<and> height m = height img
      then Inr (img\<lparr>pix := (\<lambda>p. set_alpha (pix img p) (pix m p))\<rparr>)
      else Inl ValueError)"

text \<open>\<^verbatim>\<open>img.getchannel('A')\<close>\<close>

definition getchannel_A :: "rgba image \<Rightarrow> int image" where
  "getchannel_A img = \<lparr>width = width img, height = height img, pix = (\<lambda>p. alpha (pix img p))\<rparr>"

text \<open>
  \<^verbatim>\<open>ImageChops.multiply(a, b)\<close>: per pixel \<open>a * b / 255\<close> in integer arithmetic, clipped to a
  byte, over the area the two images share.
\<close>

definition clip8 :: "int \<Rightarrow> int" where
  "clip8 v = (if v \<le> 0 then 0 else if 255 \<le> v then 255 else v)"

definition multiply :: "int image \<Rightarrow> int image \<Rightarrow> int image" where
  "multiply a b =
     \<lparr>width = min (width a) (width b), height = min (height a) (height b),
      pix = (\<lambda>p. clip8 (pix a p * pix b p div 255))\<rparr>"

text \<open>
  The rasterisers, the blur, the blending arithmetic and the resampling filter are
  Pillow's, not the script's.  They are parameters of the model: a \<open>pil\<close> gives, for the
  shape-drawing calls, the set of pixels a shape covers on a canvas of a given size; for
  \<open>GaussianBlur\<close> and \<open>LANCZOS\<close> resizing, the new pixel data; for \<open>alpha_composite\<close>,
  the blend of one destination and one source pixel.
\<close>

record pil =
  rounded_rectangle_cover :: "nat \<times> nat \<Rightarrow> int \<times> int \<times> int \<times> int \<Rightarrow> int \<Rightarrow> nat \<times> nat \<Rightarrow> bool"
  polygon_cover :: "nat \<times> nat \<Rightarrow> (rat \<times> rat) list \<Rightarrow> nat \<times> nat \<Rightarrow> bool"
  gaussian_blur :: "rat \<Rightarrow> rgba image \<Rightarrow> nat \<times> nat \<Rightarrow> rgba"
  composite_pixel :: "rgba \<Rightarrow> rgba \<Rightarrow> rgba"
  lanczos :: "rgba image \<Rightarrow> nat \<times> nat \<Rightarrow> nat \<times> nat \<Rightarrow> rgba"

text \<open>\<^verbatim>\<open>ImageDraw.Draw(img).rounded_rectangle(box, radius=r, fill=c)\<close>\<close>

definition draw_rounded_rectangle ::
  "pil \<Rightarrow> 'a image \<Rightarrow> int \<times> int \<times> int \<times> int \<Rightarrow> int \<Rightarrow> 'a \<Rightarrow> 'a image" where
  "draw_rounded_rectangle L img box r c =
     img\<lparr>pix := (\<lambda>p. if rounded_rectangle_cover L (width img, height img) box r p
                       then c else pix img p)\<rparr>"

text \<open>\<^verbatim>\<open>ImageDraw.Draw(img).polygon(points, fill=c)\<close>\<close>

definition draw_polygon :: "pil \<Rightarrow> 'a image \<Rightarrow> (rat \<times> rat) list \<Rightarrow> 'a \<Rightarrow> 'a image" where
  "draw_polygon L img pts c =
     img\<lparr>pix := (\<lambda>p. if polygon_cover L (width img, height img) pts p then c else pix img p)\<rparr>"

text \<open>\<^verbatim>\<open>img.filter(ImageFilter.GaussianBlur(radius=r))\<close>: a new image of the same size.\<close>

definition filter_GaussianBlur :: "pil \<Rightarrow> rat \<Rightarrow> rgba image \<Rightarrow> rgba image" where
  "filter_GaussianBlur L r img =
     \<lparr>width = width img, height = height img, pix = gaussian_blur L r img\<rparr>"

text \<open>\<^verbatim>\<open>Image.alpha_composite(im1, im2)\<close>: \<open>im2\<close> over \<open>im1\<close>; the sizes must agree.\<close>

definition alpha_composite :: "pil \<Rightarrow> rgba image \<Rightarrow> rgba image \<Rightarrow> error + rgba image" where
  "alpha_composite L im1 im2 =
     (if width im1 = width im2 \<and> height im1 = height im2
      then Inr \<lparr>width = width im1, height = height im1,
                pix = (\<lambda>p. composite_pixel L (pix im1 p) (pix im2 p))\<rparr>
      else Inl ValueError)"

text \<open>\<^verbatim>\<open>img.resize((w, h), Image.Resampling.LANCZOS)\<close>\<close>

definition resize :: "pil \<Rightarrow> rgba image \<Rightarrow> nat \<times> nat \<Rightarrow> rgba image" where
  "resize L img wh = \<lparr>width = fst wh, height = snd wh, pix = lanczos L img wh\<rparr>"


section \<open>\<^verbatim>\<open>create_icon\<close>\<close>

text \<open>
  The names the module binds from \<open>PIL\<close>.  A name that is not bound where the code uses it
  raises \<open>NameError\<close>.
\<close>

datatype pil_name = Image | ImageDraw | ImageFilter | ImageChops

definition lookup :: "pil_name set \<Rightarrow> pil_name \<Rightarrow> error + unit" where
  "lookup ns n = (if n \<in> ns then Inr () else Inl NameError)"

subsection \<open>Colours and geometry\<close>

definition bg_dark :: "int \<times> int \<times> int" where
  "bg_dark = (24, 24, 27)"

definition bg_lighter :: "int \<times> int \<times> int" where
  "bg_lighter = (39, 39, 42)"

definition grad_top :: "int \<times> int \<times> int" where
  "grad_top = (255, 120, 100)"

definition grad_mid :: "int \<times> int \<times> int" where
  "grad_mid = (255, 65, 55)"

definition grad_bottom :: "int \<times> int \<times> int" where
  "grad_bottom = (200, 30, 25)"

text \<open>Components of a colour triple: \<open>c[0]\<close>, \<open>c[1]\<close>, \<open>c[2]\<close>.\<close>

definition c0 :: "int \<times> int \<times> int \<Rightarrow> int" where
  "c0 c = fst c"

definition c1 :: "int \<times> int \<times> int \<Rightarrow> int" where
  "c1 c = fst (snd c)"

definition c2 :: "int \<times> int \<times> int \<Rightarrow> int" where
  "c2 c = snd (snd c)"

text \<open>\<^verbatim>\<open>int(size * k)\<close> for a float literal \<open>k\<close>.\<close>

definition corner_radius :: "nat \<Rightarrow> int" where
  "corner_radius sz = py_int (fmul (float_of_int (int sz)) (float_lit (22 / 100)))"

definition margin_x :: "nat \<Rightarrow> int" where
  "margin_x sz = py_int (fmul (float_of_int (int sz)) (float_lit (18 / 100)))"

definition margin_top :: "nat \<Rightarrow> int" where
  "margin_top sz = py_int (fmul (float_of_int (int sz)) (float_lit (22 / 100)))"

definition margin_bottom :: "nat \<Rightarrow> int" where
  "margin_bottom sz = py_int (fmul (float_of_int (int sz)) (float_lit (22 / 100)))"

definition stroke :: "nat \<Rightarrow> int" where
  "stroke sz = py_int (fmul (float_of_int (int sz)) (float_lit (125 / 1000)))"

definition left_x :: "nat \<Rightarrow> int" where
  "left_x sz = margin_x sz"

definition right_x :: "nat \<Rightarrow> int" where
  "right_x sz = int sz - margin_x sz"

definition top_y :: "nat \<Rightarrow> int" where
  "top_y sz = margin_top sz"

definition bottom_y :: "nat \<Rightarrow> int" where
  "bottom_y sz = int sz - margin_bottom sz"

definition center_x :: "nat \<Rightarrow> int" where
  "center_x sz = int sz div 2"

definition v_depth :: "nat \<Rightarrow> int" where
  "v_depth sz = py_int (fmul (float_of_int (int sz)) (float_lit (28 / 100)))"

subsection \<open>Background (lines 39 to 51)\<close>

text \<open>
  \<open>blend_channel a b t\<close> is the expression \<^verbatim>\<open>int(a + (b - a) * t)\<close> that both the
  background and the gradient evaluate per colour component, \<open>a\<close> and \<open>b\<close> ints and \<open>t\<close>
  a float.  \<open>bg_pixel\<close> is the colour of background pixel \<open>(x, y)\<close>.  \<^verbatim>\<open>size/2\<close> divides
  two ints; \<^verbatim>\<open>x - size/2\<close> converts \<open>x\<close> to a float first.
\<close>

definition blend_channel :: "int \<Rightarrow> int \<Rightarrow> rat \<Rightarrow> int" where
  "blend_channel a b t = py_int (fadd (float_of_int a) (fmul (float_of_int (b - a)) t))"

definition bg_pixel :: "nat \<Rightarrow> nat \<Rightarrow> nat \<Rightarrow> error + rgba" where
  "bg_pixel sz x y =
     bindE (int_truediv (int sz) 2) (\<lambda>half.
     bindE (fdiv (fsub (float_of_int (int x)) half) half) (\<lambda>dx.
     bindE (fdiv (fsub (float_of_int (int y)) half) half) (\<lambda>dy.
     bindE (math_sqrt (fadd (fmul dx dx) (fmul dy dy))) (\<lambda>dist.
     let t = min 1 (fmul dist (float_lit (7 / 10)));
         r = blend_channel (c0 bg_lighter) (c0 bg_dark) t;
         g = blend_channel (c1 bg_lighter) (c1 bg_dark) t;
         b = blend_channel (c2 bg_lighter) (c2 bg_dark) t
     in Inr (r, g, b, 255)))))"

definition paint_background :: "nat \<Rightarrow> rgba image \<Rightarrow> error + rgba image" where
  "paint_background sz img0 =
     for_each [0..<sz] (\<lambda>y.
       for_each [0..<sz] (\<lambda>x img.
         bindE (bg_pixel sz x y) (\<lambda>c. putpixel img (x, y) c))) img0"

definition background :: "nat \<Rightarrow> error + rgba image" where
  "background sz = paint_background sz (Image_new sz sz (0, 0, 0, 0))"

subsection \<open>Rounded-corner mask (lines 53 to 57)\<close>

definition rounded_mask :: "pil \<Rightarrow> nat \<Rightarrow> int image" where
  "rounded_mask L sz =
     draw_rounded_rectangle L (Image_new sz sz 0) (0, 0, int sz, int sz) (corner_radius sz) 255"

subsection \<open>The M polygon (lines 59 to 100)\<close>

text \<open>
  The vertex list \<open>m_outer\<close>.  A coordinate written with ints only is that int; one that
  mixes in \<^verbatim>\<open>stroke * 1.1\<close> and the like is a float.
\<close>

definition m_outer :: "nat \<Rightarrow> (rat \<times> rat) list" where
  "m_outer sz =
     (let left = left_x sz; right = right_x sz; top = top_y sz; bottom = bottom_y sz;
          s = stroke sz; cx = center_x sz; v = v_depth sz
      in [(of_int left, of_int bottom),
          (of_int left, of_int top),
          (fadd (float_of_int left) (fmul (float_of_int s) (float_lit (11 / 10))), of_int top),
          (of_int cx, of_int (top + v)),
          (fsub (float_of_int right) (fmul (float_of_int s) (float_lit (11 / 10))), of_int top),
          (of_int right, of_int top),
          (of_int right, of_int bottom),
          (of_int (right - s), of_int bottom),
          (of_int (right - s), fadd (float_of_int top) (fmul (float_of_int s) (float_lit (8 / 10)))),
          (of_int cx, fadd (float_of_int (top + v)) (fmul (float_of_int s) (float_lit (7 / 10)))),
          (of_int (left + s), fadd (float_of_int top) (fmul (float_of_int s) (float_lit (8 / 10)))),
          (of_int (left + s), of_int bottom)])"

definition m_mask :: "pil \<Rightarrow> nat \<Rightarrow> int image" where
  "m_mask L sz = draw_polygon L (Image_new sz sz 0) (m_outer sz) 255"


subsection \<open>Gradient (lines 102 to 129)\<close>

text \<open>
  The gradient position of row \<open>y\<close>.  Above \<open>top\<close> and below \<open>bottom\<close> the code assigns the
  ints 0 and 1; these and the floats of the same value give the same results below,
  small integers being floats exactly.
\<close>

definition row_t :: "nat \<Rightarrow> nat \<Rightarrow> error + rat" where
  "row_t sz y =
     (if int y < top_y sz then Inr 0
      else if bottom_y sz < int y then Inr 1
      else int_truediv (int y - top_y sz) (bottom_y sz - top_y sz))"

definition three_point :: "rat \<Rightarrow> int \<times> int \<times> int" where
  "three_point t =
     (if t < float_lit (5 / 10)
      then let t2 = fmul t (float_of_int 2)
           in (blend_channel (c0 grad_top) (c0 grad_mid) t2,
               blend_channel (c1 grad_top) (c1 grad_mid) t2,
               blend_channel (c2 grad_top) (c2 grad_mid) t2)
      else let t2 = fmul (fsub t (float_lit (5 / 10))) (float_of_int 2)
           in (blend_channel (c0 grad_mid) (c0 grad_bottom) t2,
               blend_channel (c1 grad_mid) (c1 grad_bottom) t2,
               blend_channel (c2 grad_mid) (c2 grad_bottom) t2))"

definition row_color :: "nat \<Rightarrow> nat \<Rightarrow> error + int \<times> int \<times> int" where
  "row_color sz y = bindE (row_t sz y) (\<lambda>t. Inr (three_point t))"

definition paint_gradient :: "nat \<Rightarrow> rgba image \<Rightarrow> error + rgba image" where
  "paint_gradient sz img0 =
     for_each [0..<sz] (\<lambda>y img.
       bindE (row_color sz y) (\<lambda>c.
         for_each [0..<sz] (\<lambda>x img. putpixel img (x, y) (c0 c, c1 c, c2 c, 255)) img)) img0"

definition gradient :: "nat \<Rightarrow> error + rgba image" where
  "gradient sz = paint_gradient sz (Image_new sz sz (0, 0, 0, 0))"

subsection \<open>Glow (lines 131 to 135)\<close>

definition glow_shape :: "pil \<Rightarrow> nat \<Rightarrow> rgba image" where
  "glow_shape L sz = draw_polygon L (Image_new sz sz (0, 0, 0, 0)) (m_outer sz) (255, 80, 60, 60)"

definition glow_layer :: "pil \<Rightarrow> nat \<Rightarrow> rgba image" where
  "glow_layer L sz =
     filter_GaussianBlur L (fmul (float_of_int (int sz)) (float_lit (4 / 100))) (glow_shape L sz)"

subsection \<open>The whole function (lines 21 to 144)\<close>

text \<open>
  \<open>ns\<close> is the set of \<open>PIL\<close> names bound in the module when the function runs.  Each
  name is looked up where the code first uses it.
\<close>

definition create_icon :: "pil \<Rightarrow> pil_name set \<Rightarrow> nat \<Rightarrow> error + rgba image" where
  "create_icon L ns sz =
     bindE (lookup ns Image) (\<lambda>_.
     bindE (background sz) (\<lambda>img.
     bindE (lookup ns ImageDraw) (\<lambda>_.
     let mask = rounded_mask L sz in
     bindE (putalpha img mask) (\<lambda>img.
     let m_mask = m_mask L sz in
     bindE (gradient sz) (\<lambda>m_gradient.
     bindE (putalpha m_gradient m_mask) (\<lambda>m_gradient.
     let glow = glow_shape L sz in
     bindE (lookup ns ImageFilter) (\<lambda>_.
     let glow = filter_GaussianBlur L (fmul (float_of_int (int sz)) (float_lit (4 / 100))) glow in
     bindE (alpha_composite L img glow) (\<lambda>img.
     bindE (alpha_composite L img m_gradient) (\<lambda>img.
     bindE (lookup ns ImageChops) (\<lambda>_.
     putalpha img (multiply (getchannel_A img) mask)))))))))))"


section \<open>The script around \<^verbatim>\<open>create_icon\<close>\<close>

subsection \<open>The world the script runs in\<close>

text \<open>
  What the script reads and changes outside its own variables: whether \<open>PIL\<close> can be
  imported, how an installation by \<open>pip\<close> would end and whether \<open>PIL\<close> can be imported after
  it, how often \<open>pip\<close> was run, the \<open>PIL\<close> names the module has bound, the directory above
  the script's directory, and the file system.  File system calls are taken to succeed;
  console output is left out.
\<close>

record manifest_entry =
  filename :: string
  idiom :: string
  scale :: string
  size_label :: string

record manifest =
  images :: "manifest_entry list"
  info_author :: string
  info_version :: int

datatype file_content = PNG "rgba image" | JSON manifest

record world =
  pil_importable :: bool
  pip_succeeds :: bool
  importable_after_install :: bool
  pip_runs :: nat
  namespace :: "pil_name set"
  project_dir :: string
  dirs :: "string set"
  files :: "string \<rightharpoonup> file_content"

text \<open>\<^verbatim>\<open>os.path.join(a, b)\<close>\<close>

definition path_join :: "string \<Rightarrow> string \<Rightarrow> string" where
  "path_join a b =
     (if b \<noteq> [] \<and> hd b = CHR ''/'' then b
      else if a = [] \<or> last a = CHR ''/'' then a @ b
      else a @ ''/'' @ b)"

subsection \<open>Module-level import guard (lines 10 to 16)\<close>

text \<open>\<^verbatim>\<open>from PIL import n1, n2, ...\<close>\<close>

definition import_PIL :: "pil_name list \<Rightarrow> world \<Rightarrow> error + world" where
  "import_PIL names w =
     (if pil_importable w then Inr (w\<lparr>namespace := namespace w \<union> set names\<rparr>)
      else Inl ImportError)"

text \<open>
  \<^verbatim>\<open>subprocess.check_call([sys.executable, "-m", "pip", "install", "Pillow", "-q"])\<close>:
  the world after the call, and \<open>CalledProcessError\<close> when \<open>pip\<close> exits with a failure.
\<close>

definition check_call_pip :: "world \<Rightarrow> world \<times> error option" where
  "check_call_pip w =
     (let w1 = w\<lparr>pip_runs := Suc (pip_runs w)\<rparr>
      in if pip_succeeds w then (w1\<lparr>pil_importable := importable_after_install w\<rparr>, None)
         else (w1, Some CalledProcessError))"

text \<open>The \<open>try\<close> statement: the world after it, and the exception that left it, if any.\<close>

definition module_imports :: "world \<Rightarrow> world \<times> error option" where
  "module_imports w =
     (case import_PIL [Image, ImageDraw, ImageFilter, ImageChops] w of
        Inr w' \<Rightarrow> (w', None)
      | Inl e \<Rightarrow>
          if e \<noteq> ImportError then (w, Some e)
          else (case check_call_pip w of
                  (w1, Some e1) \<Rightarrow> (w1, Some e1)
                | (w1, None) \<Rightarrow>
                    (case import_PIL [Image, ImageDraw, ImageFilter] w1 of
                       Inr w2 \<Rightarrow> (w2, None)
                     | Inl e2 \<Rightarrow> (w1, Some e2))))"

subsection \<open>\<^verbatim>\<open>generate_all_sizes\<close> (lines 146 to 172)\<close>

definition sizes :: "(nat \<times> string) list" where
  "sizes =
     [(16, ''icon_16x16.png''),
      (32, ''icon_16x16@2x.png''),
      (32, ''icon_32x32.png''),
      (64, ''icon_32x32@2x.png''),
      (128, ''icon_128x128.png''),
      (256, ''icon_128x128@2x.png''),
      (256, ''icon_256x256.png''),
      (512, ''icon_256x256@2x.png''),
      (512, ''icon_512x512.png''),
      (1024, ''icon_512x512@2x.png'')]"

text \<open>\<^verbatim>\<open>img.save(filepath, 'PNG')\<close>\<close>

definition save_png :: "rgba image \<Rightarrow> string \<Rightarrow> world \<Rightarrow> world" where
  "save_png img filepath w = w\<lparr>files := (files w)(filepath \<mapsto> PNG img)\<rparr>"

text \<open>\<^verbatim>\<open>os.makedirs(output_dir, exist_ok=True)\<close>\<close>

definition makedirs :: "string \<Rightarrow> world \<Rightarrow> world" where
  "makedirs d w = w\<lparr>dirs := insert d (dirs w)\<rparr>"

definition generate_all_sizes :: "pil \<Rightarrow> rgba image \<Rightarrow> string \<Rightarrow> world \<Rightarrow> error + world" where
  "generate_all_sizes L base_img output_dir w0 =
     bindE (for_each sizes (\<lambda>(sz, fname) w.
              bindE (lookup (namespace w) Image) (\<lambda>_.
              let resized = resize L base_img (sz, sz);
                  filepath = path_join output_dir fname
              in Inr (save_png resized filepath w)))
            (makedirs output_dir w0))
       (\<lambda>w. Inr (save_png base_img (path_join output_dir ''AppIcon.png'') w))"

subsection \<open>\<^verbatim>\<open>update_contents_json\<close> (lines 174 to 196)\<close>

definition mac_entry :: "string \<Rightarrow> string \<Rightarrow> string \<Rightarrow> manifest_entry" where
  "mac_entry f sc sl = \<lparr>filename = f, idiom = ''mac'', scale = sc, size_label = sl\<rparr>"

definition contents :: manifest where
  "contents =
     \<lparr>images =
        [mac_entry ''icon_16x16.png'' ''1x'' ''16x16'',
         mac_entry ''icon_16x16@2x.png'' ''2x'' ''16x16'',
         mac_entry ''icon_32x32.png'' ''1x'' ''32x32'',
         mac_entry ''icon_32x32@2x.png'' ''2x'' ''32x32'',
         mac_entry ''icon_128x128.png'' ''1x'' ''128x128'',
         mac_entry ''icon_128x128@2x.png'' ''2x'' ''128x128'',
         mac_entry ''icon_256x256.png'' ''1x'' ''256x256'',
         mac_entry ''icon_256x256@2x.png'' ''2x'' ''256x256'',
         mac_entry ''icon_512x512.png'' ''1x'' ''512x512'',
         mac_entry ''icon_512x512@2x.png'' ''2x'' ''512x512''],
      info_author = ''xcode'', info_version = 1\<rparr>"

definition update_contents_json :: "string \<Rightarrow> world \<Rightarrow> world" where
  "update_contents_json output_dir w =
     w\<lparr>files := (files w)(path_join output_dir ''Contents.json'' \<mapsto> JSON contents)\<rparr>"

subsection \<open>\<^verbatim>\<open>main\<close> and the script (lines 198 to 220)\<close>

definition output_dir_of :: "world \<Rightarrow> string" where
  "output_dir_of w =
     path_join (path_join (path_join (project_dir w) ''MCPControl'') ''Assets.xcassets'')
       ''AppIcon.appiconset''"

definition main :: "pil \<Rightarrow> world \<Rightarrow> error + world" where
  "main L w =
     bindE (create_icon L (namespace w) 1024) (\<lambda>icon.
     let output_dir = output_dir_of w in
     bindE (generate_all_sizes L icon output_dir w) (\<lambda>w.
     Inr (update_contents_json output_dir w)))"

text \<open>
  Running the file as a script: the module starts with no \<open>PIL\<close> name bound, executes the
  import guard and, if no exception left it, \<open>main\<close>.
\<close>

definition run_script :: "pil \<Rightarrow> world \<Rightarrow> error + world" where
  "run_script L w0 =
     (case module_imports (w0\<lparr>namespace := {}\<rparr>) of
        (w1, Some e) \<Rightarrow> Inl e
      | (w1, None) \<Rightarrow> main L w1)"

section \<open>Definitions the statements below refer to\<close>

subsection \<open>The gradient position in the specification's words\<close>

text \<open>
  The specification gives the position of row \<open>y\<close> as
  \<open>t = clamp((y - top_y) / (bottom_y - top_y), 0, 1)\<close>, where the code tests \<open>y\<close>
  against \<open>top\<close> and \<open>bottom\<close> before it divides.
\<close>

definition clamp01 :: "rat \<Rightarrow> rat" where
  "clamp01 q = max 0 (min 1 q)"

definition spec_row_t :: "nat \<Rightarrow> nat \<Rightarrow> error + rat" where
  "spec_row_t sz y =
     bindE (int_truediv (int y - top_y sz) (bottom_y sz - top_y sz)) (\<lambda>q. Inr (clamp01 q))"

subsection \<open>What is asked of a polygon rasteriser\<close>

text \<open>
  A polygon rasteriser paints no pixel outside the bounding box of the vertices it is
  given, the box taken outward to whole pixels.
\<close>

definition in_bbox :: "(rat \<times> rat) list \<Rightarrow> nat \<times> nat \<Rightarrow> bool" where
  "in_bbox pts p =
     (list_ex (\<lambda>a. \<lfloor>fst a\<rfloor> \<le> int (fst p)) pts \<and> list_ex (\<lambda>a. int (fst p) \<le> \<lceil>fst a\<rceil>) pts \<and>
      list_ex (\<lambda>a. \<lfloor>snd a\<rfloor> \<le> int (snd p)) pts \<and> list_ex (\<lambda>a. int (snd p) \<le> \<lceil>snd a\<rceil>) pts)"

definition confined_to_bbox :: "pil \<Rightarrow> bool" where
  "confined_to_bbox L = (\<forall>wh pts p. polygon_cover L wh pts p \<longrightarrow> in_bbox pts p)"

subsection \<open>The rounded rectangle of the specification\<close>

text \<open>
  Modelled from the spec: the rasteriser behind \<^verbatim>\<open>ImageDraw.rounded_rectangle\<close> is Pillow's
  and is not in the repository.  The specification describes its result as a mask that is
  255 inside a rounded-rectangle region spanning the full canvas and 0 outside.  The region
  is the box \<open>[x0, x1] \<times> [y0, y1]\<close> with its corners rounded by circles of radius \<open>r\<close>: a pixel
  of the canvas belongs to it when it lies in the box and, where it lies in one of the four
  \<open>r \<times> r\<close> corner squares, within distance \<open>r\<close> of that square's inner corner.
\<close>

definition spec_rounded_rectangle_cover ::
  "nat \<times> nat \<Rightarrow> int \<times> int \<times> int \<times> int \<Rightarrow> int \<Rightarrow> nat \<times> nat \<Rightarrow> bool" where
  "spec_rounded_rectangle_cover wh box r p =
     (case box of (x0, y0, x1, y1) \<Rightarrow>
        let x = int (fst p); y = int (snd p);
            cx = max (x0 + r) (min (x1 - r) x);
            cy = max (y0 + r) (min (y1 - r) y)
        in fst p < fst wh \<and> snd p < snd wh \<and> x0 \<le> x \<and> x \<le> x1 \<and> y0 \<le> y \<and> y \<le> y1 \<and>
           (x - cx) * (x - cx) + (y - cy) * (y - cy) \<le> r * r)"

subsection \<open>A small imaging backend and a world, to instantiate the statements\<close>

text \<open>
  \<open>demo_pil\<close> fills the bounding box of a polygon, draws the rounded rectangle of the
  specification, blurs nothing, lets an opaque or translucent source pixel replace the
  destination, and resamples by nearest neighbour.
\<close>

definition demo_pil :: pil where
  "demo_pil =
     \<lparr>rounded_rectangle_cover = spec_rounded_rectangle_cover,
      polygon_cover = (\<lambda>wh pts p. fst p < fst wh \<and> snd p < snd wh \<and> in_bbox pts p),
      gaussian_blur = (\<lambda>r img. pix img),
      composite_pixel = (\<lambda>d s. if alpha s = 0 then d else s),
      lanczos = (\<lambda>img wh p. pix img (fst p * width img div fst wh, snd p * height img div snd wh))\<rparr>"

definition demo_world :: "bool \<Rightarrow> bool \<Rightarrow> world" where
  "demo_world importable pip_ok =
     \<lparr>pil_importable = importable, pip_succeeds = pip_ok, importable_after_install = True,
      pip_runs = 0, namespace = {}, project_dir = ''/repo'', dirs = {}, files = Map.empty\<rparr>"

section \<open>Properties of the float model\<close>

subsection \<open>Exponent and rounding to an integer\<close>

lemma ilog2_bounds: "1 \<le> n \<Longrightarrow> 2 ^ ilog2 n \<le> n \<and> n < 2 ^ Suc (ilog2 n)"
proof (induction n rule: ilog2.induct)
  case (1 n)
  show ?case
  proof (cases "n < 2")
    case True
    with "1.prems" have "n = 1" by simp
    then show ?thesis by (simp add: ilog2.simps)
  next
    case False
    then have "1 \<le> n div 2" by simp
    with "1.IH" False
    have IH: "2 ^ ilog2 (n div 2) \<le> n div 2 \<and> n div 2 < 2 ^ Suc (ilog2 (n div 2))"
      by simp
    have e: "ilog2 n = Suc (ilog2 (n div 2))"
      using False by (subst ilog2.simps) simp
    have d: "2 * (n div 2) \<le> n" "n < 2 * (n div 2) + 2" by presburger+
    from IH d show ?thesis unfolding e by simp
  qed
qed

lemma bexp_bounds:
  assumes "0 < x"
  shows "2 powi bexp x \<le> x \<and> x < 2 powi (bexp x + 1)"
proof (cases "1 \<le> x")
  case True
  then have n: "1 \<le> \<lfloor>x\<rfloor>" by simp
  let ?k = "ilog2 \<lfloor>x\<rfloor>"
  from ilog2_bounds [OF n] have b: "2 ^ ?k \<le> \<lfloor>x\<rfloor>" "\<lfloor>x\<rfloor> < 2 ^ Suc ?k" by simp_all
  have e: "bexp x = int ?k" using True by (simp add: bexp_def)
  have "(2::rat) ^ ?k = of_int (2 ^ ?k)" by simp
  also have "\<dots> \<le> of_int \<lfloor>x\<rfloor>" using b(1) by (simp only: of_int_le_iff)
  also have "\<dots> \<le> x" by simp
  finally have lo: "(2::rat) ^ ?k \<le> x" .
  have "\<lfloor>x\<rfloor> + 1 \<le> 2 ^ Suc ?k" using b(2) by simp
  then have "(of_int (\<lfloor>x\<rfloor> + 1) :: rat) \<le> of_int (2 ^ Suc ?k)" by (simp only: of_int_le_iff)
  moreover have "x < of_int (\<lfloor>x\<rfloor> + 1)" by linarith
  ultimately have hi: "x < 2 ^ Suc ?k" by simp
  have "int ?k + 1 = int (Suc ?k)" by simp
  then have "(2::rat) powi (int ?k + 1) = 2 ^ Suc ?k" by (simp only: power_int_of_nat)
  with lo hi show ?thesis unfolding e by (simp add: power_int_of_nat)
next
  case False
  with assms have x1: "x < 1" by simp
  let ?c = "\<lceil>1 / x\<rceil>"
  from assms x1 have "1 < 1 / x" by simp
  then have "1 < ?c" by (simp add: less_ceiling_iff)
  then have n: "1 \<le> ?c - 1" by simp
  let ?k = "ilog2 (?c - 1)"
  from ilog2_bounds [OF n] have b: "2 ^ ?k \<le> ?c - 1" "?c - 1 < 2 ^ Suc ?k" by simp_all
  have e: "bexp x = - int (Suc ?k)" using False by (simp add: bexp_def)
  have "1 / x \<le> of_int ?c" by simp
  also have "?c \<le> 2 ^ Suc ?k" using b(2) by simp
  then have "(of_int ?c :: rat) \<le> of_int (2 ^ Suc ?k)" by (simp only: of_int_le_iff)
  finally have "1 / x \<le> 2 ^ Suc ?k" by simp
  then have lo: "1 / 2 ^ Suc ?k \<le> x" using assms
    by (simp add: field_simps)
  have "(of_int (2 ^ ?k) :: rat) \<le> of_int (?c - 1)" using b(1) by (simp only: of_int_le_iff)
  moreover have "of_int (?c - 1) < 1 / x" using ceiling_correct [of "1 / x"] by simp
  ultimately have "(2::rat) ^ ?k < 1 / x" by simp
  then have hi: "x < 1 / 2 ^ ?k" using assms by (simp add: field_simps)
  have p1: "(2::rat) powi (- int (Suc ?k)) = 1 / 2 ^ Suc ?k"
    by (simp only: power_int_minus_divide power_int_of_nat)
  have "- int (Suc ?k) + 1 = - int ?k" by simp
  then have p2: "(2::rat) powi (- int (Suc ?k) + 1) = 1 / 2 ^ ?k"
    by (simp only: power_int_minus_divide power_int_of_nat)
  from lo hi show ?thesis unfolding e p1 p2 by simp
qed

lemma binade_unique:
  assumes "(2::rat) powi a \<le> x" "x < 2 powi (a + 1)" "2 powi b \<le> x" "x < 2 powi (b + 1)"
  shows "a = b"
proof (rule ccontr)
  assume "a \<noteq> b"
  then consider "a + 1 \<le> b" | "b + 1 \<le> a" by linarith
  then show False
  proof cases
    case 1
    then have "(2::rat) powi (a + 1) \<le> 2 powi b" by (rule power_int_increasing) simp
    with assms show False by simp
  next
    case 2
    then have "(2::rat) powi (b + 1) \<le> 2 powi a" by (rule power_int_increasing) simp
    with assms show False by simp
  qed
qed

lemma bexp_eqI: "2 powi e \<le> x \<Longrightarrow> x < 2 powi (e + 1) \<Longrightarrow> bexp x = e"
proof -
  assume a: "2 powi e \<le> x" "x < 2 powi (e + 1)"
  have "(0::rat) < 2 powi e" by (simp add: zero_less_power_int)
  with a have "0 < x" by linarith
  from bexp_bounds [OF this] a show ?thesis by (metis binade_unique)
qed

lemma rne_floor_ceiling: "\<lfloor>r\<rfloor> \<le> rne r \<and> rne r \<le> \<lfloor>r\<rfloor> + 1"
  by (simp add: rne_def Let_def)

lemma rne_of_int [simp]: "rne (of_int n) = n"
  by (simp add: rne_def Let_def)

lemma rne_err: "\<bar>of_int (rne r) - r\<bar> \<le> 1 / 2"
proof -
  have "of_int \<lfloor>r\<rfloor> \<le> r" "r < of_int \<lfloor>r\<rfloor> + 1" by linarith+
  then show ?thesis by (auto simp: rne_def Let_def)
qed

lemma rne_mono: assumes "r \<le> s" shows "rne r \<le> rne s"
proof (cases "\<lfloor>r\<rfloor> = \<lfloor>s\<rfloor>")
  case True
  with assms show ?thesis by (auto simp: rne_def Let_def)
next
  case False
  with assms have "\<lfloor>r\<rfloor> < \<lfloor>s\<rfloor>" by (simp add: floor_mono le_neq_trans)
  with rne_floor_ceiling [of r] rne_floor_ceiling [of s] show ?thesis by linarith
qed


lemma pow2_pos [simp]: "(0::rat) < 2 powi k"
  by (simp add: zero_less_power_int)

lemma pow2_split: "(2::rat) powi (a + b) = 2 powi a * 2 powi b"
  by (simp add: power_int_add)

lemma pow2_diff: "(2::rat) powi (a - b) = 2 powi a / 2 powi b"
  by (simp add: power_int_diff)

lemma pow2_52: "2 ^ 52 * (2::rat) powi (e - 52) = 2 powi e"
  using pow2_split [of "e - 52" 52] by simp

lemma pow2_53: "2 ^ 53 * (2::rat) powi (e - 52) = 2 powi (e + 1)"
proof -
  have "e + 1 = (e - 52) + 53" by simp
  then have "(2::rat) powi (e + 1) = 2 powi ((e - 52) + 53)" by (simp only:)
  also have "\<dots> = 2 powi (e - 52) * 2 powi 53" by (rule pow2_split)
  finally show ?thesis by simp
qed

lemma mant_bounds:
  assumes "0 < x"
  shows "2 ^ 52 \<le> x / 2 powi (bexp x - 52) \<and> x / 2 powi (bexp x - 52) < 2 ^ 53"
proof -
  let ?e = "bexp x"
  let ?u = "(2::rat) powi (?e - 52)"
  from bexp_bounds [OF assms] have b: "2 powi ?e \<le> x" "x < 2 powi (?e + 1)" by simp_all
  have u: "0 < ?u" by simp
  have "?u * 2 ^ 52 = 2 powi ?e" "?u * 2 ^ 53 = 2 powi (?e + 1)"
    using pow2_52 [of ?e] pow2_53 [of ?e] by (simp_all add: mult.commute)
  then have "?u * 2 ^ 52 \<le> x" "x < ?u * 2 ^ 53" using b by simp_all
  with u show ?thesis by (simp add: field_simps)
qed

lemma rne_mant_bounds:
  assumes "0 < x"
  shows "2 ^ 52 \<le> rne (x / 2 powi (bexp x - 52)) \<and> rne (x / 2 powi (bexp x - 52)) \<le> 2 ^ 53"
proof -
  let ?m = "x / 2 powi (bexp x - 52)"
  from mant_bounds [OF assms] have "of_int (2 ^ 52) \<le> ?m" "?m \<le> of_int (2 ^ 53)" by simp_all
  then have "rne (of_int (2 ^ 52)) \<le> rne ?m" "rne ?m \<le> rne (of_int (2 ^ 53))"
    by (simp_all only: rne_mono)
  then show ?thesis by (simp only: rne_of_int)
qed

lemma fl_pos_bounds:
  assumes "0 < x"
  shows "2 powi bexp x \<le> fl_pos x \<and> fl_pos x \<le> 2 powi (bexp x + 1)"
proof -
  let ?e = "bexp x"
  let ?u = "(2::rat) powi (?e - 52)"
  let ?m = "rne (x / ?u)"
  from rne_mant_bounds [OF assms] have "2 ^ 52 \<le> ?m" "?m \<le> 2 ^ 53" by simp_all
  then have "(of_int (2 ^ 52) :: rat) \<le> of_int ?m" "(of_int ?m :: rat) \<le> of_int (2 ^ 53)"
    by (simp_all only: of_int_le_iff)
  then have m: "(2::rat) ^ 52 \<le> of_int ?m" "(of_int ?m :: rat) \<le> 2 ^ 53" by simp_all
  have u: "0 < ?u" by simp
  have e1: "2 ^ 52 * ?u = 2 powi ?e" by (rule pow2_52)
  have e2: "2 ^ 53 * ?u = 2 powi (?e + 1)" by (rule pow2_53)
  from m u have "2 ^ 52 * ?u \<le> of_int ?m * ?u" "of_int ?m * ?u \<le> 2 ^ 53 * ?u"
    by (simp_all only: mult_le_cancel_right_pos)
  then show ?thesis unfolding e1 e2 by (simp add: fl_pos_def Let_def)
qed

lemma fl_pos_pos: "0 < x \<Longrightarrow> 0 < fl_pos x"
  using fl_pos_bounds [of x] pow2_pos [of "bexp x"] by linarith

lemma bexp_mono:
  assumes "0 < x" "x \<le> y"
  shows "bexp x \<le> bexp y"
proof (rule ccontr)
  assume "\<not> bexp x \<le> bexp y"
  then have "bexp y + 1 \<le> bexp x" by simp
  then have "(2::rat) powi (bexp y + 1) \<le> 2 powi bexp x" by (rule power_int_increasing) simp
  moreover from assms have "0 < y" by simp
  ultimately show False using bexp_bounds [OF assms(1)] bexp_bounds [of y] assms(2) by linarith
qed

lemma fl_pos_mono:
  assumes "0 < x" "x \<le> y"
  shows "fl_pos x \<le> fl_pos y"
proof -
  from assms have y: "0 < y" by simp
  from bexp_mono [OF assms] have "bexp x = bexp y \<or> bexp x + 1 \<le> bexp y" by linarith
  then show ?thesis
  proof
    assume e: "bexp x = bexp y"
    let ?u = "(2::rat) powi (bexp y - 52)"
    have u: "0 < ?u" by simp
    from assms(2) u have "x / ?u \<le> y / ?u" by (simp add: divide_right_mono)
    then have "rne (x / ?u) \<le> rne (y / ?u)" by (rule rne_mono)
    then have "(of_int (rne (x / ?u)) :: rat) \<le> of_int (rne (y / ?u))" by (simp only: of_int_le_iff)
    with u have "of_int (rne (x / ?u)) * ?u \<le> of_int (rne (y / ?u)) * ?u"
      by (simp only: mult_le_cancel_right_pos)
    then show ?thesis by (simp add: fl_pos_def Let_def e)
  next
    assume "bexp x + 1 \<le> bexp y"
    then have "(2::rat) powi (bexp x + 1) \<le> 2 powi bexp y" by (rule power_int_increasing) simp
    with fl_pos_bounds [OF assms(1)] fl_pos_bounds [OF y] show ?thesis by linarith
  qed
qed

lemma fl_zero [simp]: "fl 0 = 0"
  by (simp add: fl_def)

lemma fl_pos_iff [simp]: "0 < fl x \<longleftrightarrow> 0 < x"
  using fl_pos_pos [of x] fl_pos_pos [of "- x"] by (auto simp: fl_def split: if_splits)

lemma fl_neg_iff [simp]: "fl x < 0 \<longleftrightarrow> x < 0"
  using fl_pos_pos [of x] fl_pos_pos [of "- x"] by (auto simp: fl_def split: if_splits)

lemma fl_eq_0_iff [simp]: "fl x = 0 \<longleftrightarrow> x = 0"
  using fl_pos_iff [of x] fl_neg_iff [of x] by (metis fl_zero less_irrefl linorder_neqE_linordered_idom)

lemma fl_nonneg_iff [simp]: "0 \<le> fl x \<longleftrightarrow> 0 \<le> x"
  using fl_neg_iff [of x] by (simp only: not_less [symmetric])

lemma fl_minus: "fl (- x) = - fl x"
  by (simp add: fl_def)

lemma fl_mono:
  assumes "x \<le> y"
  shows "fl x \<le> fl y"
proof -
  consider "0 < x" | "x \<le> 0" "0 \<le> y" | "y < 0" using assms by linarith
  then show ?thesis
  proof cases
    case 1
    with assms have "0 < y" by simp
    with 1 fl_pos_mono [OF 1 assms] show ?thesis by (simp add: fl_def)
  next
    case 2
    then have "\<not> 0 < fl x" "\<not> fl y < 0" by simp_all
    then show ?thesis by linarith
  next
    case 3
    with assms have "0 < - y" "- y \<le> - x" "x < 0" by simp_all
    with fl_pos_mono [of "- y" "- x"] 3 show ?thesis by (simp add: fl_def)
  qed
qed

lemma fl_pos_err:
  assumes "0 < x"
  shows "\<bar>fl_pos x - x\<bar> \<le> x / 2 ^ 53"
proof -
  let ?e = "bexp x"
  let ?u = "(2::rat) powi (?e - 52)"
  have u: "0 < ?u" by simp
  have "fl_pos x - x = (of_int (rne (x / ?u)) - x / ?u) * ?u"
    using u by (simp add: fl_pos_def Let_def field_simps)
  then have "\<bar>fl_pos x - x\<bar> = \<bar>of_int (rne (x / ?u)) - x / ?u\<bar> * ?u"
    using u by (simp add: abs_mult)
  also have "\<dots> \<le> (1 / 2) * ?u"
    using rne_err [of "x / ?u"] u by (simp only: mult_le_cancel_right_pos)
  also have "(1 / 2) * ?u = 2 powi ?e / 2 ^ 53"
    using pow2_diff [of ?e 52] by simp
  also have "\<dots> \<le> x / 2 ^ 53"
    using bexp_bounds [OF assms] by (simp add: divide_right_mono)
  finally show ?thesis .
qed

lemma fl_err: "\<bar>fl x - x\<bar> \<le> \<bar>x\<bar> / 2 ^ 53"
proof -
  consider "x = 0" | "0 < x" | "x < 0" by linarith
  then show ?thesis
  proof cases
    case 1 then show ?thesis by simp
  next
    case 2 with fl_pos_err [OF 2] show ?thesis by (simp add: fl_def)
  next
    case 3
    then have "0 < - x" by simp
    from fl_pos_err [OF this] 3 show ?thesis by (simp add: fl_def)
  qed
qed

subsection \<open>Numbers that are floats already\<close>

lemma pow2_less_exp:
  assumes "(2::rat) powi a < 2 powi b"
  shows "a < b"
proof (rule ccontr)
  assume "\<not> a < b"
  then have "b \<le> a" by simp
  then have "(2::rat) powi b \<le> 2 powi a" by (rule power_int_increasing) simp
  with assms show False by simp
qed

lemma pow2_int: "0 \<le> d \<Longrightarrow> (2::rat) powi d = of_int (2 ^ nat d)"
  by (simp add: power_int_def)

lemma fl_pos_exact:
  assumes "0 < m" "m < 2 ^ 53"
  shows "fl_pos (of_int m * 2 powi k) = of_int m * 2 powi k"
proof -
  let ?x = "of_int m * (2::rat) powi k"
  let ?e = "bexp ?x"
  let ?u = "(2::rat) powi (?e - 52)"
  from assms(1) have x: "0 < ?x" by simp
  from assms(2) have "(of_int m :: rat) < of_int (2 ^ 53)" by (simp only: of_int_less_iff)
  then have "?x < 2 ^ 53 * 2 powi k" by simp
  also have "\<dots> = 2 powi (k + 53)" using pow2_split [of k 53] by simp
  finally have "2 powi ?e < (2::rat) powi (k + 53)" using bexp_bounds [OF x] by linarith
  then have "?e < k + 53" by (rule pow2_less_exp)
  then have d: "0 \<le> k - (?e - 52)" by simp
  have "?x / ?u = of_int m * 2 powi (k - (?e - 52))"
    by (simp add: pow2_diff)
  also have "\<dots> = of_int (m * 2 ^ nat (k - (?e - 52)))"
    using pow2_int [OF d] by simp
  finally have "rne (?x / ?u) = m * 2 ^ nat (k - (?e - 52))" by (simp only: rne_of_int)
  then have "of_int (rne (?x / ?u)) * ?u = of_int m * 2 powi (k - (?e - 52)) * ?u"
    using pow2_int [OF d] by simp
  also have "\<dots> = ?x" by (simp add: pow2_diff)
  finally show ?thesis by (simp add: fl_pos_def Let_def)
qed

lemma fl_exact:
  assumes "\<bar>m\<bar> \<le> 2 ^ 53"
  shows "fl (of_int m * 2 powi k) = of_int m * 2 powi k"
proof -
  have pos: "fl (of_int n * 2 powi j) = of_int n * 2 powi j" if "0 < n" "n \<le> 2 ^ 53" for n j
  proof (cases "n = 2 ^ 53")
    case True
    have "(2::rat) powi (j + 1) = 2 powi j * 2" using pow2_split [of j 1] by simp
    then have "of_int n * (2::rat) powi j = of_int (2 ^ 52) * 2 powi (j + 1)"
      using True by simp
    moreover have "fl_pos (of_int (2 ^ 52) * 2 powi (j + 1)) = of_int (2 ^ 52) * 2 powi (j + 1)"
      by (rule fl_pos_exact) simp_all
    ultimately show ?thesis using that by (simp add: fl_def)
  next
    case False
    with that have "n < 2 ^ 53" by simp
    from fl_pos_exact [OF that(1) this] that(1) show ?thesis by (simp add: fl_def)
  qed
  consider "m = 0" | "0 < m" | "m < 0" by linarith
  then show ?thesis
  proof cases
    case 1 then show ?thesis by simp
  next
    case 2 with assms pos [of m k] show ?thesis by simp
  next
    case 3
    with assms have "0 < - m" "- m \<le> 2 ^ 53" by simp_all
    from pos [OF this, of k] have "fl (- (of_int m * 2 powi k)) = - (of_int m * 2 powi k)" by simp
    then show ?thesis by (simp only: fl_minus neg_equal_iff_equal)
  qed
qed

lemma fl_of_int: "\<bar>n\<bar> \<le> 2 ^ 53 \<Longrightarrow> fl (of_int n) = of_int n"
  using fl_exact [of n 0] by simp

lemma fl_of_nat: "n \<le> 2 ^ 53 \<Longrightarrow> fl (of_nat n) = of_nat n"
  using fl_of_int [of "int n"] by simp

lemma fl_idem [simp]: "fl (fl x) = fl x"
proof -
  have pos: "fl (fl_pos y) = fl_pos y" if "0 < y" for y
  proof -
    from rne_mant_bounds [OF that]
    have "\<bar>rne (y / 2 powi (bexp y - 52))\<bar> \<le> 2 ^ 53" by simp
    from fl_exact [OF this] show ?thesis by (simp add: fl_pos_def Let_def)
  qed
  consider "x = 0" | "0 < x" | "x < 0" by linarith
  then show ?thesis
  proof cases
    case 1 then show ?thesis by simp
  next
    case 2 with pos [of x] show ?thesis by (simp add: fl_def)
  next
    case 3
    then have "0 < - x" by simp
    from pos [OF this] 3 show ?thesis by (simp add: fl_def [of x] fl_minus)
  qed
qed

lemma bexp_scale:
  assumes "0 < x"
  shows "bexp (x * 2 powi k) = bexp x + k"
proof (rule bexp_eqI)
  from bexp_bounds [OF assms] have b: "2 powi bexp x \<le> x" "x < 2 powi (bexp x + 1)" by simp_all
  have p: "(0::rat) < 2 powi k" by simp
  show "2 powi (bexp x + k) \<le> x * 2 powi k"
    using b(1) p by (simp add: pow2_split)
  have "bexp x + k + 1 = (bexp x + 1) + k" by simp
  then have "(2::rat) powi (bexp x + k + 1) = 2 powi (bexp x + 1) * 2 powi k"
    by (simp only: pow2_split)
  then show "x * 2 powi k < 2 powi (bexp x + k + 1)"
    using b(2) p by simp
qed

lemma fl_scale: "fl (x * 2 powi k) = fl x * 2 powi k"
proof -
  have pos: "fl (y * 2 powi k) = fl y * 2 powi k" if "0 < y" for y
  proof -
    have "bexp y + k - 52 = (bexp y - 52) + k" by simp
    then have "(2::rat) powi (bexp y + k - 52) = 2 powi (bexp y - 52) * 2 powi k"
      by (simp only: pow2_split)
    then have "fl_pos (y * 2 powi k) = fl_pos y * 2 powi k"
      by (simp add: fl_pos_def Let_def bexp_scale [OF that])
    with that show ?thesis by (simp add: fl_def zero_less_mult_iff)
  qed
  consider "x = 0" | "0 < x" | "x < 0" by linarith
  then show ?thesis
  proof cases
    case 1 then show ?thesis by simp
  next
    case 2 with pos [of x] show ?thesis by simp
  next
    case 3
    then have "0 < - x" by simp
    from pos [OF this] have "fl (- (x * 2 powi k)) = - (fl x * 2 powi k)"
      by (simp add: fl_minus)
    then show ?thesis by (simp only: fl_minus neg_equal_iff_equal)
  qed
qed

lemma fl_double: "fl (x * 2) = fl x * 2"
  using fl_scale [of x 1] by simp

lemma fl_half: "fl (x / 2) = fl x / 2"
  using fl_scale [of x "- 1"] by (simp add: power_int_minus field_simps)

subsection \<open>Square root\<close>

lemma isqrt_correct:
  "0 \<le> n \<Longrightarrow> 0 \<le> isqrt n \<and> isqrt n * isqrt n \<le> n \<and> n < (isqrt n + 1) * (isqrt n + 1)"
proof (induction n rule: isqrt.induct)
  case (1 n)
  show ?case
  proof (cases "n < 1")
    case True
    with "1.prems" have "n = 0" by simp
    then show ?thesis by (simp add: isqrt.simps)
  next
    case False
    let ?q = "n div 4"
    let ?s = "isqrt ?q"
    from False have q: "0 \<le> ?q" by simp
    from "1.IH" [OF False q]
    have IH: "0 \<le> ?s" "?s * ?s \<le> ?q" "?q < (?s + 1) * (?s + 1)" by simp_all
    have d: "4 * ?q \<le> n" "n < 4 * ?q + 4" by presburger+
    have lo: "(2 * ?s) * (2 * ?s) \<le> n"
      using IH(2) d(1) by (simp add: algebra_simps)
    from IH(3) have "?q + 1 \<le> (?s + 1) * (?s + 1)" by simp
    then have hi: "n < (2 * ?s + 2) * (2 * ?s + 2)"
      using d(2) by (simp add: algebra_simps)
    have e: "isqrt n = (if (2 * ?s + 1) * (2 * ?s + 1) \<le> n then 2 * ?s + 1 else 2 * ?s)"
      using False by (subst isqrt.simps) (simp add: Let_def)
    show ?thesis
    proof (cases "(2 * ?s + 1) * (2 * ?s + 1) \<le> n")
      case True
      then have "isqrt n = 2 * ?s + 1" using e by simp
      with True hi IH(1) show ?thesis by (simp add: algebra_simps)
    next
      case False
      then have "isqrt n = 2 * ?s" using e by simp
      with False lo IH(1) show ?thesis by (simp add: algebra_simps)
    qed
  qed
qed

lemma isqrt_nonneg: "0 \<le> isqrt n"
proof (cases "0 \<le> n")
  case True then show ?thesis using isqrt_correct by simp
next
  case False then show ?thesis by (simp add: isqrt.simps)
qed

lemma sqrt_rn_nonneg: "0 \<le> sqrt_rn x"
proof -
  have "(0::rat) \<le> of_int (isqrt n)" for n using isqrt_nonneg [of n] by simp
  moreover have "(0::rat) \<le> of_int (isqrt n + 1)" for n using isqrt_nonneg [of n] by simp
  moreover have "(0::rat) \<le> 2 powi k" for k using pow2_pos [of k] by (simp only: less_imp_le)
  ultimately show ?thesis
    by (simp add: sqrt_rn_def Let_def)
qed

subsection \<open>The model against CPython\<close>

text \<open>
  Values CPython prints for \<^verbatim>\<open>Fraction(0.22)\<close>, \<^verbatim>\<open>Fraction(1/3)\<close>, \<^verbatim>\<open>Fraction(math.sqrt(2))\<close>
  and \<^verbatim>\<open>Fraction(math.sqrt(1/3))\<close>.
\<close>

lemma float_lit_022: "float_lit (22 / 100) = 7926335344172073 / 36028797018963968"
  by code_simp

lemma fl_third: "fl (1 / 3) = 6004799503160661 / 18014398509481984"
  by code_simp

lemma sqrt_rn_2: "sqrt_rn 2 = 6369051672525773 / 4503599627370496"
  by code_simp

lemma sqrt_rn_fl_third: "sqrt_rn (fl (1 / 3)) = 1300077228592327 / 2251799813685248"
  by code_simp

section \<open>Loops that write pixels\<close>

lemma bindE_Inr [simp]: "bindE (Inr v) f = f v"
  by (simp add: bindE_def)

lemma bindE_Inl [simp]: "bindE (Inl e) f = Inl e"
  by (simp add: bindE_def)

lemma bindE_eq_Inr: "bindE m f = Inr r \<longleftrightarrow> (\<exists>v. m = Inr v \<and> f v = Inr r)"
  by (cases m) simp_all

lemma for_each_upt_invariant:
  assumes "I i s" and "i \<le> n"
    and step: "\<And>j t. i \<le> j \<Longrightarrow> j < n \<Longrightarrow> I j t \<Longrightarrow> \<exists>t'. body j t = Inr t' \<and> I (Suc j) t'"
  shows "\<exists>s'. for_each [i..<n] body s = Inr s' \<and> I n s'"
  using assms
proof (induction "n - i" arbitrary: i s)
  case 0
  then show ?case by simp
next
  case (Suc k)
  then have lt: "i < n" by simp
  from Suc.prems(3) [OF le_refl lt Suc.prems(1)]
  obtain t where t: "body i s = Inr t" "I (Suc i) t" by blast
  have "k = n - Suc i" using Suc.hyps(2) by simp
  moreover have "Suc i \<le> n" using lt by simp
  moreover have "\<And>j u. Suc i \<le> j \<Longrightarrow> j < n \<Longrightarrow> I j u \<Longrightarrow> \<exists>u'. body j u = Inr u' \<and> I (Suc j) u'"
    using Suc.prems(3) by simp
  ultimately obtain s' where "for_each [Suc i..<n] body t = Inr s'" "I n s'"
    using Suc.hyps(1) [of "Suc i" t] t(2) by blast
  with t(1) lt show ?case by (simp add: upt_conv_Cons)
qed

text \<open>One row of pixels written from left to right.\<close>

lemma fill_row:
  assumes "n \<le> width img" "y < height img"
    and "\<And>x. x < n \<Longrightarrow> f x = Inr (c x)"
  shows "for_each [0..<n] (\<lambda>x im. bindE (f x) (\<lambda>v. putpixel im (x, y) v)) img =
           Inr (img\<lparr>pix := (\<lambda>p. if snd p = y \<and> fst p < n then c (fst p) else pix img p)\<rparr>)"
proof -
  let ?I = "\<lambda>k im. im = img\<lparr>pix := (\<lambda>p. if snd p = y \<and> fst p < k then c (fst p) else pix img p)\<rparr>"
  let ?body = "\<lambda>x im. bindE (f x) (\<lambda>v. putpixel im (x, y) v)"
  have "\<exists>s'. for_each [0..<n] ?body img = Inr s' \<and> ?I n s'"
  proof (rule for_each_upt_invariant [where I = ?I])
    show "?I 0 img" by simp
    show "0 \<le> n" by simp
  next
    fix j t
    assume j: "j < n" and t: "?I j t"
    have "(pix t)((j, y) := c j) =
            (\<lambda>p. if snd p = y \<and> fst p < Suc j then c (fst p) else pix img p)"
      by (subst t) (auto simp: fun_eq_iff less_Suc_eq)
    moreover have "width t = width img" "height t = height img" by (subst t, simp)+
    ultimately show "\<exists>t'. ?body j t = Inr t' \<and> ?I (Suc j) t'"
      using j assms by (simp add: putpixel_def)
  qed
  then show ?thesis by auto
qed

text \<open>Rows written from top to bottom, each by a step that fills the whole row.\<close>

lemma fill_rows:
  assumes "m \<le> height img"
    and "\<And>y im. y < m \<Longrightarrow> width im = width img \<Longrightarrow> height im = height img \<Longrightarrow>
           row y im = Inr (im\<lparr>pix := (\<lambda>p. if snd p = y \<and> fst p < n then c p else pix im p)\<rparr>)"
  shows "for_each [0..<m] row img =
           Inr (img\<lparr>pix := (\<lambda>p. if snd p < m \<and> fst p < n then c p else pix img p)\<rparr>)"
proof -
  let ?I = "\<lambda>k im. im = img\<lparr>pix := (\<lambda>p. if snd p < k \<and> fst p < n then c p else pix img p)\<rparr>"
  have "\<exists>s'. for_each [0..<m] row img = Inr s' \<and> ?I m s'"
  proof (rule for_each_upt_invariant [where I = ?I])
    show "?I 0 img" by simp
    show "0 \<le> m" by simp
  next
    fix j t
    assume j: "j < m" and t: "?I j t"
    have wh: "width t = width img" "height t = height img" by (subst t, simp)+
    have "(\<lambda>p. if snd p = j \<and> fst p < n then c p else pix t p) =
            (\<lambda>p. if snd p < Suc j \<and> fst p < n then c p else pix img p)"
      by (subst t) (auto simp: fun_eq_iff less_Suc_eq)
    then show "\<exists>t'. row j t = Inr t' \<and> ?I (Suc j) t'"
      using assms(2) [OF j wh] by (simp) (subst t, simp)
  qed
  then show ?thesis by auto
qed

section \<open>The geometry of the glyph in rational bounds\<close>

lemma fl_upper:
  assumes "0 \<le> x"
  shows "fl x \<le> x * (1 + 1 / 2 ^ 53)"
proof -
  from fl_err [of x] assms have "fl x - x \<le> x / 2 ^ 53" by (simp only: abs_le_iff abs_of_nonneg)
  moreover have "x * (1 + 1 / 2 ^ 53) = x + x / 2 ^ 53" by (simp add: algebra_simps)
  ultimately show ?thesis by linarith
qed

lemma fl_lower:
  assumes "0 \<le> x"
  shows "x * (1 - 1 / 2 ^ 53) \<le> fl x"
proof -
  from fl_err [of x] assms have "- (fl x - x) \<le> x / 2 ^ 53" by (simp only: abs_le_iff abs_of_nonneg)
  moreover have "x * (1 - 1 / 2 ^ 53) = x - x / 2 ^ 53" by (simp add: algebra_simps)
  ultimately show ?thesis by linarith
qed

lemma py_int_of_int [simp]: "py_int (of_int n) = n"
  by (simp add: py_int_def)

lemma py_int_mono:
  assumes "r \<le> s"
  shows "py_int r \<le> py_int s"
proof -
  consider "0 \<le> r" | "r < 0" "s < 0" | "r < 0" "0 \<le> s" by linarith
  then show ?thesis
  proof cases
    case 1
    with assms have "0 \<le> s" by simp
    with 1 assms show ?thesis by (simp add: py_int_def floor_mono)
  next
    case 2
    with assms show ?thesis by (simp add: py_int_def ceiling_mono)
  next
    case 3
    then have "\<lceil>r\<rceil> \<le> 0" "0 \<le> \<lfloor>s\<rfloor>" by (simp_all add: ceiling_le_zero less_imp_le)
    moreover have "py_int r = \<lceil>r\<rceil>" "py_int s = \<lfloor>s\<rfloor>" using 3 by (simp_all add: py_int_def)
    ultimately show ?thesis by linarith
  qed
qed

lemma py_int_nonneg: "0 \<le> r \<Longrightarrow> 0 \<le> py_int r \<and> of_int (py_int r) \<le> r \<and> r < of_int (py_int r) + 1"
  unfolding py_int_def by (simp add: floor_less_iff) linarith

text \<open>The product of a non-negative int and a float literal, as the script forms it.\<close>

lemma fmul_int_bounds:
  assumes "0 \<le> k" "0 \<le> c"
  shows "0 \<le> fmul (float_of_int k) c"
    and "fmul (float_of_int k) c \<le> of_int k * c * (1 + 1 / 2 ^ 51)"
    and "of_int k * c * (1 - 1 / 2 ^ 52) \<le> fmul (float_of_int k) c"
proof -
  let ?d = "(1::rat) / 2 ^ 53"
  let ?a = "fl (of_int k)"
  have k: "(0::rat) \<le> of_int k" using assms(1) by simp
  have a0: "0 \<le> ?a" using k by simp
  have a_hi: "?a \<le> of_int k * (1 + ?d)" using fl_upper [OF k] .
  have a_lo: "of_int k * (1 - ?d) \<le> ?a" using fl_lower [OF k] .
  have ac0: "0 \<le> ?a * c" using a0 assms(2) by simp
  show "0 \<le> fmul (float_of_int k) c"
    using ac0 by (simp add: fmul_def float_of_int_def)
  have "fl (?a * c) \<le> ?a * c * (1 + ?d)" using fl_upper [OF ac0] .
  also have "\<dots> \<le> (of_int k * (1 + ?d)) * c * (1 + ?d)"
    using a_hi assms(2) by (intro mult_right_mono) simp_all
  also have "\<dots> = of_int k * c * ((1 + ?d) * (1 + ?d))" by (simp add: algebra_simps)
  also have "\<dots> \<le> of_int k * c * (1 + 1 / 2 ^ 51)"
    using k assms(2) by (intro mult_left_mono) simp_all
  finally show "fmul (float_of_int k) c \<le> of_int k * c * (1 + 1 / 2 ^ 51)"
    by (simp add: fmul_def float_of_int_def)
  have "of_int k * c * (1 - 1 / 2 ^ 52) \<le> of_int k * c * ((1 - ?d) * (1 - ?d))"
    using k assms(2) by (intro mult_left_mono) simp_all
  also have "\<dots> = (of_int k * (1 - ?d)) * c * (1 - ?d)" by (simp add: algebra_simps)
  also have "\<dots> \<le> ?a * c * (1 - ?d)"
    using a_lo assms(2) by (intro mult_right_mono) simp_all
  also have "\<dots> \<le> fl (?a * c)" using fl_lower [OF ac0] .
  finally show "of_int k * c * (1 - 1 / 2 ^ 52) \<le> fmul (float_of_int k) c"
    by (simp add: fmul_def float_of_int_def)
qed

text \<open>\<^verbatim>\<open>int(k * c)\<close> between two rational multiples of \<open>k\<close>.\<close>

lemma int_fmul_envelope:
  assumes "0 \<le> k" "0 \<le> c" "c * (1 + 1 / 2 ^ 51) \<le> hi" "lo \<le> c * (1 - 1 / 2 ^ 52)"
  shows "0 \<le> py_int (fmul (float_of_int k) c)"
    and "of_int (py_int (fmul (float_of_int k) c)) \<le> of_int k * hi"
    and "of_int k * lo - 1 < of_int (py_int (fmul (float_of_int k) c))"
proof -
  let ?v = "fmul (float_of_int k) c"
  have k: "(0::rat) \<le> of_int k" using assms(1) by simp
  note b = fmul_int_bounds [OF assms(1,2)]
  note p = py_int_nonneg [OF b(1)]
  show "0 \<le> py_int ?v" using p by simp
  have "of_int k * (c * (1 + 1 / 2 ^ 51)) \<le> of_int k * hi"
    using k assms(3) by (rule mult_left_mono [rotated]) 
  with b(2) p show "of_int (py_int ?v) \<le> of_int k * hi" by (simp add: mult.assoc)
  have "of_int k * lo \<le> of_int k * (c * (1 - 1 / 2 ^ 52))"
    using k assms(4) by (rule mult_left_mono [rotated])
  with b(3) p show "of_int k * lo - 1 < of_int (py_int ?v)" by (simp add: mult.assoc)
qed

lemma lit_018: "0 \<le> float_lit (18 / 100) \<and> float_lit (18 / 100) * (1 + 1 / 2 ^ 51) \<le> 1801 / 10000 \<and>
   1799 / 10000 \<le> float_lit (18 / 100) * (1 - 1 / 2 ^ 52)"
  by code_simp

lemma lit_022: "0 \<le> float_lit (22 / 100) \<and> float_lit (22 / 100) * (1 + 1 / 2 ^ 51) \<le> 2201 / 10000 \<and>
   2199 / 10000 \<le> float_lit (22 / 100) * (1 - 1 / 2 ^ 52)"
  by code_simp

lemma lit_0125: "0 \<le> float_lit (125 / 1000) \<and> float_lit (125 / 1000) * (1 + 1 / 2 ^ 51) \<le> 1251 / 10000 \<and>
   1249 / 10000 \<le> float_lit (125 / 1000) * (1 - 1 / 2 ^ 52)"
  by code_simp

lemma lit_028: "0 \<le> float_lit (28 / 100) \<and> float_lit (28 / 100) * (1 + 1 / 2 ^ 51) \<le> 2801 / 10000 \<and>
   2799 / 10000 \<le> float_lit (28 / 100) * (1 - 1 / 2 ^ 52)"
  by code_simp

lemma margin_x_bounds:
  "0 \<le> margin_x n \<and> of_int (margin_x n) \<le> (of_nat n :: rat) * (1801 / 10000) \<and>
   (of_nat n :: rat) * (1799 / 10000) - 1 < of_int (margin_x n)"
  using int_fmul_envelope [of "int n" "float_lit (18 / 100)" "1801 / 10000" "1799 / 10000"] lit_018
  by (simp add: margin_x_def)

lemma margin_top_bounds:
  "0 \<le> margin_top n \<and> of_int (margin_top n) \<le> (of_nat n :: rat) * (2201 / 10000) \<and>
   (of_nat n :: rat) * (2199 / 10000) - 1 < of_int (margin_top n)"
  using int_fmul_envelope [of "int n" "float_lit (22 / 100)" "2201 / 10000" "2199 / 10000"] lit_022
  by (simp add: margin_top_def)

lemma margin_bottom_eq: "margin_bottom n = margin_top n"
  by (simp add: margin_bottom_def margin_top_def)

lemma corner_radius_eq: "corner_radius n = margin_top n"
  by (simp add: corner_radius_def margin_top_def)

lemma stroke_bounds:
  "0 \<le> stroke n \<and> of_int (stroke n) \<le> (of_nat n :: rat) * (1251 / 10000) \<and>
   (of_nat n :: rat) * (1249 / 10000) - 1 < of_int (stroke n)"
  using int_fmul_envelope [of "int n" "float_lit (125 / 1000)" "1251 / 10000" "1249 / 10000"] lit_0125
  by (simp add: stroke_def)

lemma v_depth_bounds:
  "0 \<le> v_depth n \<and> of_int (v_depth n) \<le> (of_nat n :: rat) * (2801 / 10000) \<and>
   (of_nat n :: rat) * (2799 / 10000) - 1 < of_int (v_depth n)"
  using int_fmul_envelope [of "int n" "float_lit (28 / 100)" "2801 / 10000" "2799 / 10000"] lit_028
  by (simp add: v_depth_def)

lemma top_less_bottom: "0 < n \<Longrightarrow> top_y n < bottom_y n"
proof -
  assume n: "0 < n"
  have "(of_int (2 * margin_top n) :: rat) \<le> of_nat n * (4402 / 10000)"
    using margin_top_bounds [of n] by simp
  also have "\<dots> < of_nat n" using n by simp
  finally have "(of_int (2 * margin_top n) :: rat) < of_int (int n)" by simp
  then have "2 * margin_top n < int n" by (simp only: of_int_less_iff)
  then show ?thesis by (simp add: top_y_def bottom_y_def margin_bottom_eq)
qed

lemma top_y_nonneg: "0 \<le> top_y n"
  using margin_top_bounds [of n] by (simp add: top_y_def)

section \<open>The background painter\<close>

text \<open>\<^verbatim>\<open>int(a + (b - a) * t)\<close> stays between \<open>a\<close> and \<open>b\<close> for \<open>t\<close> from 0 to 1.\<close>

lemma blend_channel_between:
  assumes t: "0 \<le> t" "t \<le> 1"
    and small: "\<bar>a\<bar> \<le> 2 ^ 53" "\<bar>b\<bar> \<le> 2 ^ 53" "\<bar>b - a\<bar> \<le> 2 ^ 53"
  shows "min a b \<le> blend_channel a b t \<and> blend_channel a b t \<le> max a b"
proof -
  let ?d = "float_of_int (b - a)"
  have fa: "float_of_int a = of_int a"
    unfolding float_of_int_def by (rule fl_of_int [OF small(1)])
  have fb: "fl (of_int b) = of_int b"
    by (rule fl_of_int [OF small(2)])
  have fd: "?d = of_int (b - a)"
    unfolding float_of_int_def by (rule fl_of_int [OF small(3)])
  have fld: "fl (of_int (b - a)) = of_int (b - a)"
    by (rule fl_of_int [OF small(3)])
  let ?p = "fmul ?d t"
  let ?s = "fadd (float_of_int a) ?p"
  have fla: "fl (of_int a) = of_int a" using small by (simp add: fl_of_int)
  show ?thesis
  proof (cases "a \<le> b")
    case True
    then have d0: "(0::rat) \<le> of_int (b - a)" by simp
    have "0 \<le> of_int (b - a) * t" "of_int (b - a) * t \<le> of_int (b - a)"
      using d0 t by (simp_all add: mult_left_le)
    then have "fl 0 \<le> ?p" "?p \<le> fl (of_int (b - a))"
      unfolding fmul_def fd by (simp_all only: fl_mono)
    then have p: "0 \<le> ?p" "?p \<le> of_int b - of_int a"
      unfolding fld by simp_all
    then have "of_int a \<le> of_int a + ?p" "of_int a + ?p \<le> of_int b" by simp_all
    then have "fl (of_int a) \<le> ?s" "?s \<le> fl (of_int b)"
      unfolding fadd_def fa by (simp_all only: fl_mono)
    then have "py_int (of_int a) \<le> py_int ?s" "py_int ?s \<le> py_int (of_int b)"
      unfolding fla fb by (simp_all only: py_int_mono)
    with True show ?thesis by (simp add: blend_channel_def)
  next
    case False
    then have d0: "(of_int (b - a) :: rat) \<le> 0" by simp
    define e :: rat where "e = - of_int (b - a)"
    have e0: "0 \<le> e" using d0 by (simp add: e_def)
    have "0 \<le> e * t" "e * t \<le> e"
      using e0 t by (simp_all add: mult_left_le)
    then have "- e * t \<le> 0" "- e \<le> - e * t" by simp_all
    then have "of_int (b - a) * t \<le> 0" "of_int (b - a) \<le> of_int (b - a) * t"
      by (simp_all only: e_def minus_minus)
    then have "?p \<le> fl 0" "fl (of_int (b - a)) \<le> ?p"
      unfolding fmul_def fd by (simp_all only: fl_mono)
    then have p: "?p \<le> 0" "of_int b - of_int a \<le> ?p"
      unfolding fld by simp_all
    then have "of_int a + ?p \<le> of_int a" "of_int b \<le> of_int a + ?p" by simp_all
    then have "?s \<le> fl (of_int a)" "fl (of_int b) \<le> ?s"
      unfolding fadd_def fa by (simp_all only: fl_mono)
    then have "py_int ?s \<le> py_int (of_int a)" "py_int (of_int b) \<le> py_int ?s"
      unfolding fla fb by (simp_all only: py_int_mono)
    with False show ?thesis by (simp add: blend_channel_def)
  qed
qed

lemma int_truediv_2: "int_truediv n 2 = Inr (fl (of_int n / 2))"
  by (simp add: int_truediv_def)

text \<open>The background colour of every pixel of a canvas that has pixels.\<close>

lemma bg_pixel_ok:
  assumes "0 < sz"
  shows "\<exists>r g b. bg_pixel sz x y = Inr (r, g, b, 255) \<and>
           c0 bg_dark \<le> r \<and> r \<le> c0 bg_lighter \<and>
           c1 bg_dark \<le> g \<and> g \<le> c1 bg_lighter \<and>
           c2 bg_dark \<le> b \<and> b \<le> c2 bg_lighter"
proof -
  let ?half = "fl (of_int (int sz) / 2)"
  have h: "?half \<noteq> 0" using assms by simp
  let ?dx = "fl (fsub (float_of_int (int x)) ?half / ?half)"
  let ?dy = "fl (fsub (float_of_int (int y)) ?half / ?half)"
  let ?q = "fadd (fmul ?dx ?dx) (fmul ?dy ?dy)"
  have q: "0 \<le> ?q" by (simp add: fadd_def fmul_def)
  let ?t = "min 1 (fmul (sqrt_rn ?q) (float_lit (7 / 10)))"
  have "0 \<le> float_lit (7 / 10)" by (simp add: float_lit_def)
  then have "0 \<le> fmul (sqrt_rn ?q) (float_lit (7 / 10))"
    using sqrt_rn_nonneg [of ?q] by (simp add: fmul_def)
  then have t: "0 \<le> ?t" "?t \<le> 1" by simp_all
  have e: "bg_pixel sz x y =
      Inr (blend_channel (c0 bg_lighter) (c0 bg_dark) ?t,
           blend_channel (c1 bg_lighter) (c1 bg_dark) ?t,
           blend_channel (c2 bg_lighter) (c2 bg_dark) ?t, 255)"
    using h q by (simp add: bg_pixel_def int_truediv_2 fdiv_def math_sqrt_def Let_def)
  have r: "min 39 24 \<le> blend_channel 39 24 ?t \<and> blend_channel 39 24 ?t \<le> max 39 24"
    by (rule blend_channel_between [OF t]) simp_all
  have b: "min 42 27 \<le> blend_channel 42 27 ?t \<and> blend_channel 42 27 ?t \<le> max 42 27"
    by (rule blend_channel_between [OF t]) simp_all
  show ?thesis
    unfolding e using r b by (simp add: bg_dark_def bg_lighter_def c0_def c1_def c2_def)
qed

text \<open>
  One pixel against CPython: at size 1024, pixel \<open>(300, 700)\<close> has
  \<^verbatim>\<open>dx = -0.4140625\<close>, \<^verbatim>\<open>dy = 0.3671875\<close>, \<^verbatim>\<open>dist = math.sqrt(0.30627441406250)\<close> and the
  colour \<^verbatim>\<open>(33, 33, 36, 255)\<close>.
\<close>

lemma bg_pixel_1024_300_700: "bg_pixel 1024 300 700 = Inr (33, 33, 36, 255)"
proof -
  have h: "int_truediv (int 1024) 2 = Inr 512"
    by code_simp
  have dx: "fdiv (fsub (float_of_int (int 300)) 512) 512 = Inr (- (53 / 128))"
    by code_simp
  have dy: "fdiv (fsub (float_of_int (int 700)) 512) 512 = Inr (47 / 128)"
    by code_simp
  have q: "fadd (fmul (- (53 / 128)) (- (53 / 128))) (fmul (47 / 128) (47 / 128)) = 2509 / 8192"
    by code_simp
  have d: "math_sqrt (2509 / 8192) = Inr (2492385025860579 / 4503599627370496)"
    by code_simp
  have t: "min 1 (fmul (2492385025860579 / 4503599627370496) (float_lit (7 / 10)))
             = 6978678072409621 / 18014398509481984"
    by code_simp
  have c: "blend_channel (c0 bg_lighter) (c0 bg_dark) (6978678072409621 / 18014398509481984) = 33"
    "blend_channel (c1 bg_lighter) (c1 bg_dark) (6978678072409621 / 18014398509481984) = 33"
    "blend_channel (c2 bg_lighter) (c2 bg_dark) (6978678072409621 / 18014398509481984) = 36"
    by code_simp+
  show ?thesis
    unfolding bg_pixel_def h bindE_Inr dx dy q d t Let_def c ..
qed

text \<open>The geometry at the default size, as CPython computes it.\<close>

lemma geometry_1024:
  "margin_x 1024 = 184" "margin_top 1024 = 225" "margin_bottom 1024 = 225"
  "stroke 1024 = 128" "v_depth 1024 = 286" "corner_radius 1024 = 225" "center_x 1024 = 512"
  by code_simp+

lemma paint_background_result:
  assumes "0 < sz" "width img = sz" "height img = sz"
  shows "paint_background sz img =
           Inr (img\<lparr>pix := (\<lambda>p. if snd p < sz \<and> fst p < sz
                                 then projr (bg_pixel sz (fst p) (snd p)) else pix img p)\<rparr>)"
  unfolding paint_background_def
proof (rule fill_rows)
  show "sz \<le> height img" using assms by simp
next
  fix y and im :: "rgba image"
  assume y: "y < sz" and wh: "width im = width img" "height im = height img"
  have ok: "bg_pixel sz x y = Inr (projr (bg_pixel sz x y))" for x
    using bg_pixel_ok [OF assms(1), of x y] by auto
  have "for_each [0..<sz] (\<lambda>x im. bindE (bg_pixel sz x y) (\<lambda>v. putpixel im (x, y) v)) im =
          Inr (im\<lparr>pix := (\<lambda>p. if snd p = y \<and> fst p < sz
                                then projr (bg_pixel sz (fst p) y) else pix im p)\<rparr>)"
    by (rule fill_row) (use y wh assms ok in simp_all)
  moreover have "(\<lambda>p. if snd p = y \<and> fst p < sz then projr (bg_pixel sz (fst p) y) else pix im p) =
                 (\<lambda>p. if snd p = y \<and> fst p < sz then projr (bg_pixel sz (fst p) (snd p)) else pix im p)"
    by (auto simp: fun_eq_iff)
  ultimately show "for_each [0..<sz] (\<lambda>x im. bindE (bg_pixel sz x y) (\<lambda>c. putpixel im (x, y) c)) im =
          Inr (im\<lparr>pix := (\<lambda>p. if snd p = y \<and> fst p < sz
                                then projr (bg_pixel sz (fst p) (snd p)) else pix im p)\<rparr>)"
    by simp
qed

lemma background_result:
  assumes "0 < sz"
  shows "background sz =
           Inr \<lparr>width = sz, height = sz,
                pix = (\<lambda>p. if snd p < sz \<and> fst p < sz
                            then projr (bg_pixel sz (fst p) (snd p)) else (0, 0, 0, 0))\<rparr>"
  unfolding background_def Image_new_def
  using paint_background_result [OF assms, of "\<lparr>width = sz, height = sz, pix = (\<lambda>p. (0, 0, 0, 0))\<rparr>"]
  by (simp cong: if_cong)

text \<open>
  Claim C4.  For every positive canvas dimension \<open>N\<close> the background painter raises nothing
  and leaves an \<open>N \<times> N\<close> image in which every pixel has alpha 255 and each colour
  component lies between that component of \<open>bg_dark\<close> and of \<open>bg_lighter\<close>.
\<close>

theorem background_opaque_within_endpoints:
  assumes "0 < N"
  shows "\<exists>img. background N = Inr img \<and> width img = N \<and> height img = N \<and>
           (\<forall>x<N. \<forall>y<N. \<exists>r g b.
              pix img (x, y) = (r, g, b, 255) \<and>
              c0 bg_dark \<le> r \<and> r \<le> c0 bg_lighter \<and>
              c1 bg_dark \<le> g \<and> g \<le> c1 bg_lighter \<and>
              c2 bg_dark \<le> b \<and> b \<le> c2 bg_lighter)"
proof -
  have "\<exists>r g b. projr (bg_pixel N x y) = (r, g, b, 255) \<and>
              c0 bg_dark \<le> r \<and> r \<le> c0 bg_lighter \<and>
              c1 bg_dark \<le> g \<and> g \<le> c1 bg_lighter \<and>
              c2 bg_dark \<le> b \<and> b \<le> c2 bg_lighter" for x y
    using bg_pixel_ok [OF assms, of x y] by auto
  then show ?thesis
    by (simp add: background_result [OF assms])
qed

theorem background_opaque_within_endpoints_witness:
  "(0::nat) < 2 \<and> (\<exists>img. background 2 = Inr img \<and> width img = 2 \<and> height img = 2 \<and>
     (\<exists>r g b. pix img (1, 0) = (r, g, b, 255) \<and>
        24 \<le> r \<and> r \<le> 39 \<and> 24 \<le> g \<and> g \<le> 39 \<and> 27 \<le> b \<and> b \<le> 42))"
proof -
  have pos: "(0::nat) < 2" by simp
  from background_opaque_within_endpoints [OF pos]
  obtain img where i: "background 2 = Inr img" "width img = 2" "height img = 2"
    and px: "\<forall>x<2. \<forall>y<2. \<exists>r g b.
              pix img (x, y) = (r, g, b, 255) \<and>
              c0 bg_dark \<le> r \<and> r \<le> c0 bg_lighter \<and>
              c1 bg_dark \<le> g \<and> g \<le> c1 bg_lighter \<and>
              c2 bg_dark \<le> b \<and> b \<le> c2 bg_lighter"
    by blast
  from px have "\<exists>r g b. pix img (1, 0) = (r, g, b, 255) \<and>
        24 \<le> r \<and> r \<le> 39 \<and> 24 \<le> g \<and> g \<le> 39 \<and> 27 \<le> b \<and> b \<le> 42"
    by (simp add: bg_dark_def bg_lighter_def c0_def c1_def c2_def)
  with i pos show ?thesis by blast
qed

section \<open>The gradient fill\<close>

lemma three_point_stops:
  "three_point 0 = grad_top \<and> three_point (1 / 2) = grad_mid \<and> three_point 1 = grad_bottom"
  by code_simp

lemma top_plus_bottom: "top_y n + bottom_y n = int n"
  by (simp add: top_y_def bottom_y_def margin_bottom_eq)

lemma bottom_y_nonneg: "0 \<le> bottom_y n"
proof (cases "0 < n")
  case True
  from top_less_bottom [OF True] top_y_nonneg [of n] show ?thesis by simp
next
  case False
  then have "top_y n + bottom_y n = 0" by (simp add: top_plus_bottom)
  moreover have "(of_int (margin_top n) :: rat) \<le> 0"
    using margin_top_bounds [of n] False by simp
  then have "margin_top n \<le> 0" by (simp only: of_int_le_0_iff)
  ultimately show ?thesis using top_y_nonneg [of n] by (simp add: top_y_def)
qed

lemma fl_one [simp]: "fl 1 = 1"
  using fl_of_int [of 1] by simp

lemma fl_half_val [simp]: "fl (1 / 2) = 1 / 2"
  using fl_exact [of 1 "- 1"] by (simp add: power_int_minus_divide)

text \<open>The position of a row, where the canvas has rows.\<close>

lemma row_t_cases:
  assumes "0 < sz"
  shows "row_t sz y =
           Inr (if int y < top_y sz then 0
                else if bottom_y sz < int y then 1
                else fl (of_int (int y - top_y sz) / of_int (bottom_y sz - top_y sz)))"
  using top_less_bottom [OF assms] by (simp add: row_t_def int_truediv_def)

lemma row_t_range:
  assumes "0 < sz" "row_t sz y = Inr t"
  shows "0 \<le> t \<and> t \<le> 1"
proof -
  let ?e = "of_int (bottom_y sz - top_y sz) :: rat"
  let ?q = "of_int (int y - top_y sz) / ?e"
  have e: "0 < ?e" using top_less_bottom [OF assms(1)] by simp
  have "0 \<le> fl ?q \<and> fl ?q \<le> 1" if "top_y sz \<le> int y" "int y \<le> bottom_y sz"
  proof -
    have "0 \<le> ?q" using that e by simp
    moreover have "?q \<le> 1" using that e by simp
    then have "fl ?q \<le> fl 1" by (rule fl_mono)
    ultimately show ?thesis by simp
  qed
  with assms(2) show ?thesis
    unfolding row_t_cases [OF assms(1)] by (auto split: if_splits)
qed

lemma row_t_refines_spec:
  assumes "0 < sz"
  shows "row_t sz y = spec_row_t sz y"
proof -
  let ?e = "of_int (bottom_y sz - top_y sz) :: rat"
  let ?q = "of_int (int y - top_y sz) / ?e"
  have e: "0 < ?e" and ne: "bottom_y sz - top_y sz \<noteq> 0"
    using top_less_bottom [OF assms] by simp_all
  have s: "spec_row_t sz y = Inr (clamp01 (fl ?q))"
    using ne by (simp add: spec_row_t_def int_truediv_def)
  consider "int y < top_y sz" | "bottom_y sz < int y" "top_y sz \<le> int y"
    | "top_y sz \<le> int y" "int y \<le> bottom_y sz" by linarith
  then show ?thesis
  proof cases
    case 1
    then have "?q < 0" using e by (simp add: divide_neg_pos)
    then have "fl ?q < 0" by (simp only: fl_neg_iff)
    then have "clamp01 (fl ?q) = 0" unfolding clamp01_def by linarith
    with 1 show ?thesis unfolding s row_t_cases [OF assms] by simp
  next
    case 2
    then have "1 \<le> ?q" using e by simp
    then have "fl 1 \<le> fl ?q" by (rule fl_mono)
    then have "1 \<le> fl ?q" by (simp only: fl_one)
    then have "clamp01 (fl ?q) = 1" unfolding clamp01_def by linarith
    with 2 top_less_bottom [OF assms] show ?thesis unfolding s row_t_cases [OF assms] by simp
  next
    case 3
    then have "row_t sz y = Inr (fl ?q)" unfolding row_t_cases [OF assms] by simp
    moreover from row_t_range [OF assms this] have "clamp01 (fl ?q) = fl ?q"
      unfolding clamp01_def by linarith
    ultimately show ?thesis unfolding s by simp
  qed
qed

lemma row_t_top:
  assumes "0 < sz"
  shows "row_t sz (nat (top_y sz)) = Inr 0"
  using top_y_nonneg [of sz] top_less_bottom [OF assms]
  by (simp add: row_t_cases [OF assms])

lemma row_t_bottom:
  assumes "0 < sz"
  shows "row_t sz (nat (bottom_y sz)) = Inr 1"
  using bottom_y_nonneg [of sz] top_less_bottom [OF assms]
  by (simp add: row_t_cases [OF assms])

lemma row_t_middle:
  assumes "0 < sz" "2 * int y = top_y sz + bottom_y sz"
  shows "row_t sz y = Inr (1 / 2)"
proof -
  from top_less_bottom [OF assms(1)] assms(2)
  have b: "top_y sz < int y" "int y < bottom_y sz" by linarith+
  have "bottom_y sz - top_y sz = 2 * (int y - top_y sz)" using assms(2) by simp
  then have "(of_int (bottom_y sz - top_y sz) :: rat) = 2 * of_int (int y - top_y sz)"
    by (simp only: of_int_mult of_int_numeral)
  moreover have "(of_int (int y - top_y sz) :: rat) \<noteq> 0" using b by simp
  ultimately have "of_int (int y - top_y sz) / (of_int (bottom_y sz - top_y sz) :: rat) = 1 / 2"
    by simp
  then have q: "fl (of_int (int y - top_y sz) / (of_int (bottom_y sz - top_y sz) :: rat)) = 1 / 2"
    by (simp only: fl_half_val)
  show ?thesis unfolding row_t_cases [OF assms(1)] q using b by simp
qed

lemma fill_row_const:
  assumes "n \<le> width img" "y < height img"
  shows "for_each [0..<n] (\<lambda>x im. putpixel im (x, y) v) img =
           Inr (img\<lparr>pix := (\<lambda>p. if snd p = y \<and> fst p < n then v else pix img p)\<rparr>)"
  using fill_row [OF assms, of "\<lambda>x. Inr v" "\<lambda>x. v"] by simp

lemma row_color_ok:
  assumes "0 < sz"
  shows "\<exists>t. row_t sz y = Inr t \<and> row_color sz y = Inr (three_point t)"
  by (simp add: row_color_def row_t_cases [OF assms])

lemma paint_gradient_result:
  assumes "0 < sz" "width img = sz" "height img = sz"
  shows "paint_gradient sz img =
           Inr (img\<lparr>pix := (\<lambda>p. if snd p < sz \<and> fst p < sz
                                 then (c0 (projr (row_color sz (snd p))),
                                       c1 (projr (row_color sz (snd p))),
                                       c2 (projr (row_color sz (snd p))), 255)
                                 else pix img p)\<rparr>)"
  unfolding paint_gradient_def
proof (rule fill_rows)
  show "sz \<le> height img" using assms by simp
next
  fix y and im :: "rgba image"
  assume y: "y < sz" and wh: "width im = width img" "height im = height img"
  let ?c = "projr (row_color sz y)"
  have ok: "row_color sz y = Inr ?c"
    using row_color_ok [OF assms(1), of y] by auto
  have "for_each [0..<sz] (\<lambda>x im. putpixel im (x, y) (c0 ?c, c1 ?c, c2 ?c, 255)) im =
          Inr (im\<lparr>pix := (\<lambda>p. if snd p = y \<and> fst p < sz
                                then (c0 ?c, c1 ?c, c2 ?c, 255) else pix im p)\<rparr>)"
    by (rule fill_row_const) (use y wh assms in simp_all)
  moreover have "(\<lambda>p. if snd p = y \<and> fst p < sz then (c0 ?c, c1 ?c, c2 ?c, 255) else pix im p) =
                 (\<lambda>p. if snd p = y \<and> fst p < sz
                      then (c0 (projr (row_color sz (snd p))), c1 (projr (row_color sz (snd p))),
                            c2 (projr (row_color sz (snd p))), 255)
                      else pix im p)"
    by (auto simp: fun_eq_iff)
  ultimately show "bindE (row_color sz y)
          (\<lambda>c. for_each [0..<sz] (\<lambda>x img. putpixel img (x, y) (c0 c, c1 c, c2 c, 255)) im) =
        Inr (im\<lparr>pix := (\<lambda>p. if snd p = y \<and> fst p < sz
                      then (c0 (projr (row_color sz (snd p))), c1 (projr (row_color sz (snd p))),
                            c2 (projr (row_color sz (snd p))), 255)
                      else pix im p)\<rparr>)"
    by (subst ok) simp
qed

lemma gradient_result:
  assumes "0 < sz"
  shows "gradient sz =
           Inr \<lparr>width = sz, height = sz,
                pix = (\<lambda>p. if snd p < sz \<and> fst p < sz
                            then (c0 (projr (row_color sz (snd p))),
                                  c1 (projr (row_color sz (snd p))),
                                  c2 (projr (row_color sz (snd p))), 255)
                            else (0, 0, 0, 0))\<rparr>"
  unfolding gradient_def Image_new_def
  using paint_gradient_result [OF assms, of "\<lparr>width = sz, height = sz, pix = (\<lambda>p. (0, 0, 0, 0))\<rparr>"]
  by (simp cong: if_cong)

lemma three_point_unfold:
  "three_point t =
     (if t < 1 / 2
      then (blend_channel 255 255 (fl (t * 2)), blend_channel 120 65 (fl (t * 2)),
            blend_channel 100 55 (fl (t * 2)))
      else (blend_channel 255 200 (fl (fl (t - 1 / 2) * 2)),
            blend_channel 65 30 (fl (fl (t - 1 / 2) * 2)),
            blend_channel 55 25 (fl (fl (t - 1 / 2) * 2))))"
proof -
  have "float_of_int 2 = 2" using fl_of_int [of 2] by (simp add: float_of_int_def)
  then show ?thesis
    by (simp add: three_point_def float_lit_def fmul_def fsub_def Let_def
        grad_top_def grad_mid_def grad_bottom_def c0_def c1_def c2_def)
qed




section \<open>Compositing and the final mask\<close>

lemma background_ok: "\<exists>bg. background N = Inr bg \<and> width bg = N \<and> height bg = N"
proof (cases "0 < N")
  case True
  then show ?thesis by (simp add: background_result)
next
  case False
  then show ?thesis by (simp add: background_def paint_background_def Image_new_def)
qed

lemma gradient_ok: "\<exists>g. gradient N = Inr g \<and> width g = N \<and> height g = N"
proof (cases "0 < N")
  case True
  then show ?thesis by (simp add: gradient_result)
next
  case False
  then show ?thesis by (simp add: gradient_def paint_gradient_def Image_new_def)
qed

lemma rounded_mask_size [simp]: "width (rounded_mask L N) = N" "height (rounded_mask L N) = N"
  by (simp_all add: rounded_mask_def draw_rounded_rectangle_def Image_new_def)

lemma m_mask_size [simp]: "width (m_mask L N) = N" "height (m_mask L N) = N"
  by (simp_all add: m_mask_def draw_polygon_def Image_new_def)

lemma glow_layer_size [simp]: "width (glow_layer L N) = N" "height (glow_layer L N) = N"
  by (simp_all add: glow_layer_def glow_shape_def filter_GaussianBlur_def draw_polygon_def
      Image_new_def)

lemma putalpha_ok:
  "width m = width img \<Longrightarrow> height m = height img \<Longrightarrow>
   \<exists>r. putalpha img m = Inr r \<and> width r = width img \<and> height r = height img \<and>
       (\<forall>p. pix r p = set_alpha (pix img p) (pix m p))"
  by (simp add: putalpha_def)

lemma alpha_composite_ok:
  "width a = width b \<Longrightarrow> height a = height b \<Longrightarrow>
   \<exists>r. alpha_composite L a b = Inr r \<and> width r = width a \<and> height r = height a"
  by (simp add: alpha_composite_def)

lemma alpha_set_alpha [simp]: "alpha (set_alpha c a) = a"
  by (cases c) (simp add: alpha_def set_alpha_def)

text \<open>
  The function up to line 139, and what remains of it: the lookup of \<open>ImageChops\<close> and the
  last \<open>putalpha\<close>.
\<close>

lemma create_icon_stages:
  assumes "{Image, ImageDraw, ImageFilter} \<subseteq> ns"
  shows "\<exists>bg masked grad glyph over_glow flat.
           background N = Inr bg \<and>
           putalpha bg (rounded_mask L N) = Inr masked \<and>
           gradient N = Inr grad \<and>
           putalpha grad (m_mask L N) = Inr glyph \<and>
           alpha_composite L masked (glow_layer L N) = Inr over_glow \<and>
           alpha_composite L over_glow glyph = Inr flat \<and>
           width flat = N \<and> height flat = N \<and>
           create_icon L ns N =
             bindE (lookup ns ImageChops)
               (\<lambda>_. putalpha flat (multiply (getchannel_A flat) (rounded_mask L N)))"
proof -
  from background_ok obtain bg where bg: "background N = Inr bg" "width bg = N" "height bg = N"
    by blast
  from putalpha_ok [of "rounded_mask L N" bg] bg
  obtain masked where masked: "putalpha bg (rounded_mask L N) = Inr masked"
    "width masked = N" "height masked = N" by auto
  from gradient_ok obtain grad where grad: "gradient N = Inr grad" "width grad = N" "height grad = N"
    by blast
  from putalpha_ok [of "m_mask L N" grad] grad
  obtain glyph where glyph: "putalpha grad (m_mask L N) = Inr glyph"
    "width glyph = N" "height glyph = N" by auto
  from alpha_composite_ok [of masked "glow_layer L N" L] masked
  obtain over_glow where og: "alpha_composite L masked (glow_layer L N) = Inr over_glow"
    "width over_glow = N" "height over_glow = N" by auto
  from alpha_composite_ok [of over_glow glyph L] og glyph
  obtain flat where flat: "alpha_composite L over_glow glyph = Inr flat"
    "width flat = N" "height flat = N" by auto
  have names: "lookup ns Image = Inr ()" "lookup ns ImageDraw = Inr ()" "lookup ns ImageFilter = Inr ()"
    using assms by (simp_all add: lookup_def)
  have g: "alpha_composite L masked
             (filter_GaussianBlur L (fmul (float_of_int (int N)) (float_lit (4 / 100)))
                (glow_shape L N)) = Inr over_glow"
    using og(1) by (simp add: glow_layer_def)
  have "create_icon L ns N =
          bindE (lookup ns ImageChops)
            (\<lambda>_. putalpha flat (multiply (getchannel_A flat) (rounded_mask L N)))"
    using g by (simp add: create_icon_def names bg masked grad glyph flat Let_def)
  with bg masked grad glyph og flat show ?thesis by blast
qed

lemma final_putalpha:
  assumes "width flat = N" "height flat = N"
  shows "\<exists>img. putalpha flat (multiply (getchannel_A flat) (rounded_mask L N)) = Inr img \<and>
           width img = N \<and> height img = N \<and>
           (\<forall>p. alpha (pix img p) = clip8 (alpha (pix flat p) * pix (rounded_mask L N) p div 255))"
  using assms by (simp add: putalpha_def multiply_def getchannel_A_def)

text \<open>
  Claim C3.  With the four \<open>PIL\<close> names bound, \<open>create_icon\<close> composites the glow over the
  masked background, then the glyph over that, and replaces the alpha of the flattened
  image by its product with the rounded mask.  The final alpha of a pixel is
  \<open>alpha * mask div 255\<close> clipped to a byte, so it is 0 wherever the rounded mask is 0,
  whatever the blur, the rasterisers and the blending arithmetic of the library do.
\<close>

theorem composite_order_and_final_mask:
  assumes "{Image, ImageDraw, ImageFilter, ImageChops} \<subseteq> ns"
  shows "\<exists>bg masked grad glyph over_glow flat img.
           background N = Inr bg \<and>
           putalpha bg (rounded_mask L N) = Inr masked \<and>
           gradient N = Inr grad \<and>
           putalpha grad (m_mask L N) = Inr glyph \<and>
           alpha_composite L masked (glow_layer L N) = Inr over_glow \<and>
           alpha_composite L over_glow glyph = Inr flat \<and>
           putalpha flat (multiply (getchannel_A flat) (rounded_mask L N)) = Inr img \<and>
           create_icon L ns N = Inr img \<and>
           (\<forall>p. alpha (pix img p) = clip8 (alpha (pix flat p) * pix (rounded_mask L N) p div 255)) \<and>
           (\<forall>p. pix (rounded_mask L N) p = 0 \<longrightarrow> alpha (pix img p) = 0)"
proof -
  from assms have three: "{Image, ImageDraw, ImageFilter} \<subseteq> ns"
    and chops: "lookup ns ImageChops = Inr ()" by (simp_all add: lookup_def)
  from create_icon_stages [OF three, of N L]
  obtain bg masked grad glyph over_glow flat where
    s: "background N = Inr bg" "putalpha bg (rounded_mask L N) = Inr masked"
       "gradient N = Inr grad" "putalpha grad (m_mask L N) = Inr glyph"
       "alpha_composite L masked (glow_layer L N) = Inr over_glow"
       "alpha_composite L over_glow glyph = Inr flat"
    and wh: "width flat = N" "height flat = N"
    and c: "create_icon L ns N =
             bindE (lookup ns ImageChops)
               (\<lambda>_. putalpha flat (multiply (getchannel_A flat) (rounded_mask L N)))"
    by blast
  from final_putalpha [OF wh, of L]
  obtain img where i: "putalpha flat (multiply (getchannel_A flat) (rounded_mask L N)) = Inr img"
    and a: "\<forall>p. alpha (pix img p) = clip8 (alpha (pix flat p) * pix (rounded_mask L N) p div 255)"
    by blast
  from a have "\<forall>p. pix (rounded_mask L N) p = 0 \<longrightarrow> alpha (pix img p) = 0"
    by (simp add: clip8_def)
  moreover have "create_icon L ns N = Inr img" using c chops i by simp
  ultimately show ?thesis using s i a by blast
qed

lemma create_icon_ok:
  assumes "{Image, ImageDraw, ImageFilter, ImageChops} \<subseteq> ns"
  shows "\<exists>img. create_icon L ns N = Inr img \<and> width img = N \<and> height img = N"
proof -
  from assms have three: "{Image, ImageDraw, ImageFilter} \<subseteq> ns"
    and chops: "lookup ns ImageChops = Inr ()" by (simp_all add: lookup_def)
  from create_icon_stages [OF three, of N L]
  obtain flat where wh: "width flat = N" "height flat = N"
    and c: "create_icon L ns N =
             bindE (lookup ns ImageChops)
               (\<lambda>_. putalpha flat (multiply (getchannel_A flat) (rounded_mask L N)))"
    by blast
  from final_putalpha [OF wh, of L] c chops show ?thesis by auto
qed

lemma create_icon_without_ImageChops:
  assumes "{Image, ImageDraw, ImageFilter} \<subseteq> ns" "ImageChops \<notin> ns"
  shows "create_icon L ns N = Inl NameError"
proof -
  from create_icon_stages [OF assms(1), of N L]
  obtain flat where "create_icon L ns N =
             bindE (lookup ns ImageChops)
               (\<lambda>_. putalpha flat (multiply (getchannel_A flat) (rounded_mask L N)))"
    by blast
  with assms(2) show ?thesis by (simp add: lookup_def)
qed

lemma create_icon_namespace:
  assumes "{Image, ImageDraw, ImageFilter, ImageChops} \<subseteq> ns"
    and "{Image, ImageDraw, ImageFilter, ImageChops} \<subseteq> ns'"
  shows "create_icon L ns N = create_icon L ns' N"
  using assms by (simp add: create_icon_def lookup_def)


section \<open>The glyph polygon\<close>

text \<open>Sums and differences of a converted int and a non-negative float.\<close>

lemma fadd_fl_upper:
  assumes "0 \<le> a" "0 \<le> p"
  shows "fadd (fl a) p \<le> (a + p) * (1 + 1 / 2 ^ 51)"
proof -
  let ?d = "(1::rat) / 2 ^ 53"
  have "fl a \<le> a * (1 + ?d)" using fl_upper [OF assms(1)] .
  moreover have "p \<le> p * (1 + ?d)" using assms(2) by (simp add: algebra_simps)
  ultimately have s: "fl a + p \<le> (a + p) * (1 + ?d)" by (simp add: algebra_simps)
  have x0: "0 \<le> fl a + p" using assms by (simp add: fl_nonneg_iff)
  have "fl (fl a + p) \<le> (fl a + p) * (1 + ?d)" using fl_upper [OF x0] .
  also have "\<dots> \<le> ((a + p) * (1 + ?d)) * (1 + ?d)"
    using s by (intro mult_right_mono) simp_all
  also have "\<dots> = (a + p) * ((1 + ?d) * (1 + ?d))" by (simp add: algebra_simps)
  also have "\<dots> \<le> (a + p) * (1 + 1 / 2 ^ 51)"
    using assms by (intro mult_left_mono) simp_all
  finally show ?thesis by (simp add: fadd_def)
qed

lemma fadd_fl_lower:
  assumes "0 \<le> a" "0 \<le> p" "fl a = a \<or> a / 2 ^ 51 \<le> p"
  shows "a \<le> fadd (fl a) p"
  using assms(3)
proof
  assume e: "fl a = a"
  have "fl a \<le> fl (a + p)" using assms(2) by (intro fl_mono) simp
  then show ?thesis by (simp add: fadd_def e)
next
  assume big: "a / 2 ^ 51 \<le> p"
  let ?d = "(1::rat) / 2 ^ 53"
  have lo: "a * (1 - ?d) \<le> fl a" using fl_lower [OF assms(1)] .
  have x0: "0 \<le> fl a + p" using assms by (simp add: fl_nonneg_iff)
  have "(a * (1 - ?d) + p) * (1 - ?d) \<le> (fl a + p) * (1 - ?d)"
    using lo by (intro mult_right_mono) simp_all
  also have "\<dots> \<le> fl (fl a + p)" using fl_lower [OF x0] .
  finally have "(a * (1 - ?d) + p) * (1 - ?d) \<le> fadd (fl a) p" by (simp add: fadd_def)
  moreover have "a \<le> (a * (1 - ?d) + p) * (1 - ?d)"
  proof -
    define A1 A2 P1 where "A1 = a * ?d" and "A2 = a * ?d * ?d" and "P1 = p * ?d"
    have "(a * (1 - ?d) + p) * (1 - ?d) = a - 2 * A1 + A2 + p - P1"
      by (simp add: A1_def A2_def P1_def algebra_simps)
    moreover have "0 \<le> A2" using assms(1) by (simp add: A2_def)
    moreover have "4 * A1 = a / 2 ^ 51" by (simp add: A1_def)
    moreover have "P1 \<le> p / 2" using assms(2) by (simp add: P1_def)
    ultimately show ?thesis using big by linarith
  qed
  ultimately show ?thesis by linarith
qed

lemma fadd_fl_strict:
  assumes "0 \<le> a" "0 < p" "a / 2 ^ 51 \<le> p"
  shows "a < fadd (fl a) p"
proof -
  let ?d = "(1::rat) / 2 ^ 53"
  have lo: "a * (1 - ?d) \<le> fl a" using fl_lower [OF assms(1)] .
  have x0: "0 \<le> fl a + p" using assms by (simp add: fl_nonneg_iff)
  have "(a * (1 - ?d) + p) * (1 - ?d) \<le> (fl a + p) * (1 - ?d)"
    using lo by (intro mult_right_mono) simp_all
  also have "\<dots> \<le> fl (fl a + p)" using fl_lower [OF x0] .
  finally have "(a * (1 - ?d) + p) * (1 - ?d) \<le> fadd (fl a) p" by (simp add: fadd_def)
  moreover have "a < (a * (1 - ?d) + p) * (1 - ?d)"
  proof -
    define A1 A2 P1 where "A1 = a * ?d" and "A2 = a * ?d * ?d" and "P1 = p * ?d"
    have "(a * (1 - ?d) + p) * (1 - ?d) = a - 2 * A1 + A2 + p - P1"
      by (simp add: A1_def A2_def P1_def algebra_simps)
    moreover have "0 \<le> A2" using assms(1) by (simp add: A2_def)
    moreover have "4 * A1 = a / 2 ^ 51" by (simp add: A1_def)
    moreover have "P1 < p / 2" using assms(2) by (simp add: P1_def)
    ultimately show ?thesis using assms(3) by linarith
  qed
  ultimately show ?thesis by linarith
qed

lemma fsub_fl_upper:
  assumes "0 \<le> r" "0 \<le> p" "fl r = r \<or> (r / 2 ^ 51 \<le> p \<and> p \<le> fl r)"
  shows "fsub (fl r) p \<le> r"
  using assms(3)
proof
  assume e: "fl r = r"
  have "fl (r - p) \<le> fl r" using assms(2) by (intro fl_mono) simp
  then show ?thesis by (simp add: fsub_def e)
next
  assume big: "r / 2 ^ 51 \<le> p \<and> p \<le> fl r"
  let ?d = "(1::rat) / 2 ^ 53"
  have hi: "fl r \<le> r * (1 + ?d)" using fl_upper [OF assms(1)] .
  have x0: "0 \<le> fl r - p" using big by simp
  have "fl (fl r - p) \<le> (fl r - p) * (1 + ?d)" using fl_upper [OF x0] .
  also have "\<dots> \<le> (r * (1 + ?d) - p) * (1 + ?d)"
    using hi by (intro mult_right_mono) simp_all
  finally have "fsub (fl r) p \<le> (r * (1 + ?d) - p) * (1 + ?d)" by (simp add: fsub_def)
  moreover have "(r * (1 + ?d) - p) * (1 + ?d) \<le> r"
  proof -
    define R1 R2 P1 where "R1 = r * ?d" and "R2 = r * ?d * ?d" and "P1 = p * ?d"
    have "(r * (1 + ?d) - p) * (1 + ?d) = r + 2 * R1 + R2 - p - P1"
      by (simp add: R1_def R2_def P1_def algebra_simps)
    moreover have "R2 \<le> R1" using assms(1) by (simp add: R1_def R2_def)
    moreover have "4 * R1 = r / 2 ^ 51" by (simp add: R1_def)
    moreover have "0 \<le> R1" using assms(1) by (simp add: R1_def)
    moreover have "0 \<le> P1" using assms(2) by (simp add: P1_def)
    ultimately show ?thesis using big by linarith
  qed
  ultimately show ?thesis by linarith
qed

lemma fsub_fl_lower:
  assumes "0 \<le> r" "0 \<le> p" "p \<le> r * (1 - 1 / 2 ^ 53)"
  shows "r - p - r / 2 ^ 52 \<le> fsub (fl r) p"
proof -
  let ?d = "(1::rat) / 2 ^ 53"
  have lo: "r * (1 - ?d) \<le> fl r" using fl_lower [OF assms(1)] .
  then have x0: "0 \<le> fl r - p" using assms(3) by linarith
  have "(r * (1 - ?d) - p) * (1 - ?d) \<le> (fl r - p) * (1 - ?d)"
    using lo by (intro mult_right_mono) simp_all
  also have "\<dots> \<le> fl (fl r - p)" using fl_lower [OF x0] .
  finally have "(r * (1 - ?d) - p) * (1 - ?d) \<le> fsub (fl r) p" by (simp add: fsub_def)
  moreover have "r - p - r / 2 ^ 52 \<le> (r * (1 - ?d) - p) * (1 - ?d)"
  proof -
    define R1 R2 P1 where "R1 = r * ?d" and "R2 = r * ?d * ?d" and "P1 = p * ?d"
    have "(r * (1 - ?d) - p) * (1 - ?d) = r - 2 * R1 + R2 - p + P1"
      by (simp add: R1_def R2_def P1_def algebra_simps)
    moreover have "0 \<le> R2" using assms(1) by (simp add: R2_def)
    moreover have "2 * R1 = r / 2 ^ 52" by (simp add: R1_def)
    moreover have "0 \<le> P1" using assms(2) by (simp add: P1_def)
    ultimately show ?thesis by linarith
  qed
  ultimately show ?thesis by linarith
qed

lemma fmul_envelope:
  assumes "0 \<le> k" "0 \<le> c" "c * (1 + 1 / 2 ^ 51) \<le> hi" "lo \<le> c * (1 - 1 / 2 ^ 52)"
  shows "0 \<le> fmul (float_of_int k) c \<and> of_int k * lo \<le> fmul (float_of_int k) c \<and>
         fmul (float_of_int k) c \<le> of_int k * hi"
proof -
  have k: "(0::rat) \<le> of_int k" using assms(1) by simp
  note b = fmul_int_bounds [OF assms(1,2)]
  have "of_int k * (c * (1 + 1 / 2 ^ 51)) \<le> of_int k * hi"
    using k assms(3) by (rule mult_left_mono [rotated])
  moreover have "of_int k * lo \<le> of_int k * (c * (1 - 1 / 2 ^ 52))"
    using k assms(4) by (rule mult_left_mono [rotated])
  ultimately show ?thesis using b by (simp add: mult.assoc)
qed

lemma lit_11: "0 \<le> float_lit (11 / 10) \<and> float_lit (11 / 10) * (1 + 1 / 2 ^ 51) \<le> 111 / 100 \<and>
   109 / 100 \<le> float_lit (11 / 10) * (1 - 1 / 2 ^ 52)"
  by code_simp

lemma lit_08: "0 \<le> float_lit (8 / 10) \<and> float_lit (8 / 10) * (1 + 1 / 2 ^ 51) \<le> 81 / 100 \<and>
   79 / 100 \<le> float_lit (8 / 10) * (1 - 1 / 2 ^ 52)"
  by code_simp

lemma lit_07: "0 \<le> float_lit (7 / 10) \<and> float_lit (7 / 10) * (1 + 1 / 2 ^ 51) \<le> 71 / 100 \<and>
   69 / 100 \<le> float_lit (7 / 10) * (1 - 1 / 2 ^ 52)"
  by code_simp

lemma stroke_offsets:
  "0 \<le> fmul (float_of_int (stroke N)) (float_lit (11 / 10)) \<and>
   of_int (stroke N) * (109 / 100) \<le> fmul (float_of_int (stroke N)) (float_lit (11 / 10)) \<and>
   fmul (float_of_int (stroke N)) (float_lit (11 / 10)) \<le> of_int (stroke N) * (111 / 100) \<and>
   0 \<le> fmul (float_of_int (stroke N)) (float_lit (8 / 10)) \<and>
   of_int (stroke N) * (79 / 100) \<le> fmul (float_of_int (stroke N)) (float_lit (8 / 10)) \<and>
   fmul (float_of_int (stroke N)) (float_lit (8 / 10)) \<le> of_int (stroke N) * (81 / 100) \<and>
   0 \<le> fmul (float_of_int (stroke N)) (float_lit (7 / 10)) \<and>
   of_int (stroke N) * (69 / 100) \<le> fmul (float_of_int (stroke N)) (float_lit (7 / 10)) \<and>
   fmul (float_of_int (stroke N)) (float_lit (7 / 10)) \<le> of_int (stroke N) * (71 / 100)"
proof -
  have s: "0 \<le> stroke N" using stroke_bounds [of N] by simp
  from fmul_envelope [OF s, of "float_lit (11 / 10)" "111 / 100" "109 / 100"]
    fmul_envelope [OF s, of "float_lit (8 / 10)" "81 / 100" "79 / 100"]
    fmul_envelope [OF s, of "float_lit (7 / 10)" "71 / 100" "69 / 100"]
    lit_11 lit_08 lit_07
  show ?thesis by blast
qed

lemma stroke_exact: "stroke N = \<lfloor>fl (of_nat N) / 8\<rfloor>"
proof -
  have l: "float_lit (125 / 1000) = 2 powi (- 3)"
    using fl_exact [of 1 "- 3"] by (simp add: float_lit_def power_int_minus_divide)
  have "fmul (float_of_int (int N)) (float_lit (125 / 1000)) = fl (of_nat N) * 2 powi (- 3)"
    unfolding l fmul_def float_of_int_def by (simp only: fl_scale fl_idem of_int_of_nat_eq)
  then have m: "fmul (float_of_int (int N)) (float_lit (125 / 1000)) = fl (of_nat N) / 8"
    by (simp only: power_int_minus_divide) simp
  have "(0::rat) \<le> fl (of_nat N) / 8" by (simp add: fl_nonneg_iff)
  then show ?thesis
    unfolding stroke_def m py_int_def by simp
qed

lemma stroke_pos:
  assumes "8 \<le> N"
  shows "1 \<le> stroke N"
proof -
  have "(of_nat 8 :: rat) \<le> of_nat N" using assms by (simp only: of_nat_le_iff)
  then have "(8::rat) \<le> of_nat N" by simp
  then have "fl 8 \<le> fl (of_nat N)" by (rule fl_mono)
  moreover have "fl 8 = 8" using fl_of_int [of 8] by simp
  ultimately have "1 \<le> fl (of_nat N) / 8" by simp
  then show ?thesis unfolding stroke_exact by (simp add: le_floor_iff)
qed

lemma float_of_int_small:
  assumes "0 \<le> k" "k \<le> int N" "N \<le> 2 ^ 51"
  shows "fl (of_int k) = of_int k"
proof -
  have "int N \<le> int (2 ^ 51)" using assms(3) by (simp only: of_nat_le_iff)
  then have "int N \<le> 2 ^ 51" by simp
  with assms have "\<bar>k\<bar> \<le> 2 ^ 53" by simp
  then show ?thesis by (rule fl_of_int)
qed

text \<open>Every vertex of the M lies in the box from \<open>(left, top)\<close> to \<open>(right, bottom)\<close>.\<close>

lemma m_outer_vertices:
  fixes N :: nat
  defines "p11 \<equiv> fmul (float_of_int (stroke N)) (float_lit (11 / 10))"
    and "p08 \<equiv> fmul (float_of_int (stroke N)) (float_lit (8 / 10))"
    and "p07 \<equiv> fmul (float_of_int (stroke N)) (float_lit (7 / 10))"
  shows "left_x N \<le> right_x N \<and> top_y N \<le> bottom_y N \<and>
         left_x N \<le> center_x N \<and> center_x N \<le> right_x N \<and>
         0 \<le> v_depth N \<and> top_y N + v_depth N \<le> bottom_y N \<and>
         0 \<le> stroke N \<and> left_x N + stroke N \<le> right_x N \<and>
         of_int (left_x N) \<le> fadd (float_of_int (left_x N)) p11 \<and>
         fadd (float_of_int (left_x N)) p11 \<le> of_int (right_x N) \<and>
         of_int (left_x N) \<le> fsub (float_of_int (right_x N)) p11 \<and>
         fsub (float_of_int (right_x N)) p11 \<le> of_int (right_x N) \<and>
         of_int (top_y N) \<le> fadd (float_of_int (top_y N)) p08 \<and>
         fadd (float_of_int (top_y N)) p08 \<le> of_int (bottom_y N) \<and>
         of_int (top_y N + v_depth N) \<le> fadd (float_of_int (top_y N + v_depth N)) p07 \<and>
         fadd (float_of_int (top_y N + v_depth N)) p07 \<le> of_int (bottom_y N)"
proof -
  define n :: rat where "n = of_nat N"
  define L :: rat where "L = of_int (left_x N)"
  define R :: rat where "R = of_int (right_x N)"
  define T :: rat where "T = of_int (top_y N)"
  define B :: rat where "B = of_int (bottom_y N)"
  define S :: rat where "S = of_int (stroke N)"
  define V :: rat where "V = of_int (v_depth N)"
  have n0: "0 \<le> n" by (simp add: n_def)
  have l: "0 \<le> L" "L \<le> n * (1801 / 10000)" and r: "R = n - L"
    using margin_x_bounds [of N] by (simp_all add: L_def R_def n_def left_x_def right_x_def)
  have t: "0 \<le> T" "T \<le> n * (2201 / 10000)" and b: "B = n - T"
    using margin_top_bounds [of N]
    by (simp_all add: T_def B_def n_def top_y_def bottom_y_def margin_bottom_eq)
  have s: "0 \<le> S" "S \<le> n * (1251 / 10000)" "n * (1249 / 10000) - 1 < S"
    using stroke_bounds [of N] by (simp_all add: S_def n_def)
  have v: "0 \<le> V" "V \<le> n * (2801 / 10000)"
    using v_depth_bounds [of N] by (simp_all add: V_def n_def)
  have p: "0 \<le> p11" "S * (109 / 100) \<le> p11" "p11 \<le> S * (111 / 100)"
    "0 \<le> p08" "S * (79 / 100) \<le> p08" "p08 \<le> S * (81 / 100)"
    "0 \<le> p07" "S * (69 / 100) \<le> p07" "p07 \<le> S * (71 / 100)"
    using stroke_offsets [of N] by (simp_all add: p11_def p08_def p07_def S_def)
  have ints: "left_x N \<le> right_x N \<and> top_y N \<le> bottom_y N \<and>
         left_x N \<le> center_x N \<and> center_x N \<le> right_x N \<and>
         0 \<le> v_depth N \<and> top_y N + v_depth N \<le> bottom_y N \<and>
         0 \<le> stroke N \<and> left_x N + stroke N \<le> right_x N"
  proof -
    have "2 * L \<le> n" "2 * T + V \<le> n" "2 * L + S \<le> n" using l t s v n0 by linarith+
    then have "(of_int (2 * left_x N) :: rat) \<le> of_int (int N)"
      "(of_int (2 * top_y N + v_depth N) :: rat) \<le> of_int (int N)"
      "(of_int (2 * left_x N + stroke N) :: rat) \<le> of_int (int N)"
      by (simp_all add: L_def T_def V_def S_def n_def)
    then have i: "2 * left_x N \<le> int N" "2 * top_y N + v_depth N \<le> int N"
      "2 * left_x N + stroke N \<le> int N"
      by (simp_all only: of_int_le_iff)
    have "0 \<le> left_x N" "0 \<le> top_y N" "0 \<le> stroke N" "0 \<le> v_depth N"
      using l(1) t(1) s(1) v(1) by (simp_all add: L_def T_def S_def V_def)
    with i show ?thesis
      by (simp add: right_x_def left_x_def bottom_y_def top_y_def margin_bottom_eq center_x_def)
        linarith
  qed
  have tv: "of_int (top_y N + v_depth N) = T + V" by (simp add: T_def V_def)
  have tight: "(fl L = L \<and> fl R = R \<and> fl T = T \<and> fl (T + V) = T + V) \<or>
               (n / 2 ^ 51 \<le> p11 \<and> n / 2 ^ 51 \<le> p08 \<and> n / 2 ^ 51 \<le> p07)"
  proof (cases "N \<le> 2 ^ 51")
    case True
    have l0: "0 \<le> left_x N" using l(1) by (simp add: L_def)
    have bN: "bottom_y N \<le> int N"
      using top_y_nonneg [of N] by (simp add: bottom_y_def margin_bottom_eq top_y_def)
    have rN: "right_x N \<le> int N" using l0 by (simp add: right_x_def left_x_def)
    have k: "0 \<le> left_x N" "left_x N \<le> int N" "0 \<le> right_x N" "right_x N \<le> int N"
      "0 \<le> top_y N" "top_y N \<le> int N" "0 \<le> top_y N + v_depth N" "top_y N + v_depth N \<le> int N"
      using ints top_y_nonneg [of N] l0 bN rN by linarith+
    have "fl L = L" unfolding L_def by (rule float_of_int_small [OF k(1,2) True])
    moreover have "fl R = R" unfolding R_def by (rule float_of_int_small [OF k(3,4) True])
    moreover have "fl T = T" unfolding T_def by (rule float_of_int_small [OF k(5,6) True])
    moreover have "fl (T + V) = T + V"
      unfolding tv [symmetric] by (rule float_of_int_small [OF k(7,8) True])
    ultimately show ?thesis by blast
  next
    case False
    then have "(2::nat) ^ 51 < N" by simp
    then have "(of_nat (2 ^ 51) :: rat) < of_nat N" by (simp only: of_nat_less_iff)
    then have "2 ^ 51 < n" by (simp add: n_def)
    then have "n / 2 ^ 51 \<le> (n * (1249 / 10000) - 1) * (69 / 100)" by simp
    also have "\<dots> \<le> S * (69 / 100)" using s(3) by simp
    finally have "n / 2 ^ 51 \<le> S * (69 / 100)" .
    with p s(1) show ?thesis by simp
  qed
  have le_n: "L \<le> n" "R \<le> n" "T \<le> n" "T + V \<le> n" using l t v r n0 by linarith+
  have x1: "L \<le> fadd (fl L) p11"
    by (rule fadd_fl_lower [OF l(1) p(1)]) (use tight le_n l in \<open>auto simp: field_simps\<close>)
  have x2: "fadd (fl L) p11 \<le> R"
  proof -
    have "fadd (fl L) p11 \<le> (L + p11) * (1 + 1 / 2 ^ 51)"
      by (rule fadd_fl_upper [OF l(1) p(1)])
    also have "\<dots> \<le> (L + p11) * (1001 / 1000)"
      using l(1) p(1) by (intro mult_left_mono) simp_all
    also have "\<dots> = L * (1001 / 1000) + p11 * (1001 / 1000)" by (simp add: algebra_simps)
    also have "\<dots> \<le> R" using l p s r n0 by linarith
    finally show ?thesis .
  qed
  have r0: "0 \<le> R" using l r n0 by linarith
  have x3: "fsub (fl R) p11 \<le> R"
  proof (rule fsub_fl_upper [OF r0 p(1)])
    have "R / 2 \<le> fl R" using fl_lower [OF r0] r0 by (simp add: algebra_simps)
    moreover have "p11 \<le> R / 2" using l p s r n0 by linarith
    ultimately have "p11 \<le> fl R" by linarith
    moreover have "R / 2 ^ 51 \<le> n / 2 ^ 51" using le_n by (simp add: divide_right_mono)
    ultimately show "fl R = R \<or> R / 2 ^ 51 \<le> p11 \<and> p11 \<le> fl R" using tight by auto
  qed
  have x4: "L \<le> fsub (fl R) p11"
  proof -
    have "R / 2 \<le> R * (1 - 1 / 2 ^ 53)" using r0 by (simp add: algebra_simps)
    moreover have "p11 \<le> R / 2" using l p s r n0 by linarith
    ultimately have "p11 \<le> R * (1 - 1 / 2 ^ 53)" by linarith
    from fsub_fl_lower [OF r0 p(1) this] have "R - p11 - R / 2 ^ 52 \<le> fsub (fl R) p11" .
    moreover have "R / 2 ^ 52 \<le> R / 1000" using r0 by simp
    moreover have "L \<le> R - p11 - R / 1000" using l p s r n0 by linarith
    ultimately show ?thesis by linarith
  qed
  have y1: "T \<le> fadd (fl T) p08"
    by (rule fadd_fl_lower [OF t(1) p(4)]) (use tight le_n t in \<open>auto simp: field_simps\<close>)
  have y2: "fadd (fl T) p08 \<le> B"
  proof -
    have "fadd (fl T) p08 \<le> (T + p08) * (1 + 1 / 2 ^ 51)"
      by (rule fadd_fl_upper [OF t(1) p(4)])
    also have "\<dots> \<le> (T + p08) * (1001 / 1000)"
      using t(1) p(4) by (intro mult_left_mono) simp_all
    also have "\<dots> = T * (1001 / 1000) + p08 * (1001 / 1000)" by (simp add: algebra_simps)
    also have "\<dots> \<le> B" using t p s b n0 by linarith
    finally show ?thesis .
  qed
  have tv0: "0 \<le> T + V" using t v by simp
  have y3: "T + V \<le> fadd (fl (T + V)) p07"
    by (rule fadd_fl_lower [OF tv0 p(7)]) (use tight le_n tv0 in \<open>auto simp: field_simps\<close>)
  have y4: "fadd (fl (T + V)) p07 \<le> B"
  proof -
    have "fadd (fl (T + V)) p07 \<le> (T + V + p07) * (1 + 1 / 2 ^ 51)"
      by (rule fadd_fl_upper [OF tv0 p(7)])
    also have "\<dots> \<le> (T + V + p07) * (1001 / 1000)"
      using tv0 p(7) by (intro mult_left_mono) simp_all
    also have "\<dots> = T * (1001 / 1000) + V * (1001 / 1000) + p07 * (1001 / 1000)"
      by (simp add: algebra_simps)
    also have "\<dots> \<le> B" using t v p s b n0 by linarith
    finally show ?thesis .
  qed
  from ints x1 x2 x3 x4 y1 y2 y3 y4 show ?thesis
    unfolding float_of_int_def tv L_def [symmetric] R_def [symmetric] T_def [symmetric]
      B_def [symmetric]
    by simp
qed

lemma m_outer_in_box:
  assumes "a \<in> set (m_outer N)"
  shows "of_int (left_x N) \<le> fst a \<and> fst a \<le> of_int (right_x N) \<and>
         of_int (top_y N) \<le> snd a \<and> snd a \<le> of_int (bottom_y N)"
proof -
  let ?p11 = "fmul (float_of_int (stroke N)) (float_lit (11 / 10))"
  let ?p08 = "fmul (float_of_int (stroke N)) (float_lit (8 / 10))"
  let ?p07 = "fmul (float_of_int (stroke N)) (float_lit (7 / 10))"
  note v = m_outer_vertices [of N]
  from v have i: "left_x N \<le> right_x N" "top_y N \<le> bottom_y N" "left_x N \<le> center_x N"
    "center_x N \<le> right_x N" "0 \<le> v_depth N" "top_y N + v_depth N \<le> bottom_y N"
    "0 \<le> stroke N" "left_x N + stroke N \<le> right_x N" by simp_all
  from v have f:
    "of_int (left_x N) \<le> fadd (float_of_int (left_x N)) ?p11"
    "fadd (float_of_int (left_x N)) ?p11 \<le> of_int (right_x N)"
    "of_int (left_x N) \<le> fsub (float_of_int (right_x N)) ?p11"
    "fsub (float_of_int (right_x N)) ?p11 \<le> of_int (right_x N)"
    "of_int (top_y N) \<le> fadd (float_of_int (top_y N)) ?p08"
    "fadd (float_of_int (top_y N)) ?p08 \<le> of_int (bottom_y N)"
    "of_int (top_y N + v_depth N) \<le> fadd (float_of_int (top_y N + v_depth N)) ?p07"
    "fadd (float_of_int (top_y N + v_depth N)) ?p07 \<le> of_int (bottom_y N)"
    by simp_all
  have tv: "(of_int (top_y N) :: rat) \<le> of_int (top_y N + v_depth N)" using i(5) by simp
  from assms have "a \<in> {(of_int (left_x N), of_int (bottom_y N)),
          (of_int (left_x N), of_int (top_y N)),
          (fadd (float_of_int (left_x N)) ?p11, of_int (top_y N)),
          (of_int (center_x N), of_int (top_y N + v_depth N)),
          (fsub (float_of_int (right_x N)) ?p11, of_int (top_y N)),
          (of_int (right_x N), of_int (top_y N)),
          (of_int (right_x N), of_int (bottom_y N)),
          (of_int (right_x N - stroke N), of_int (bottom_y N)),
          (of_int (right_x N - stroke N), fadd (float_of_int (top_y N)) ?p08),
          (of_int (center_x N), fadd (float_of_int (top_y N + v_depth N)) ?p07),
          (of_int (left_x N + stroke N), fadd (float_of_int (top_y N)) ?p08),
          (of_int (left_x N + stroke N), of_int (bottom_y N))}"
    unfolding m_outer_def Let_def by simp
  then show ?thesis
  proof (elim insertE emptyE)
    assume "a = (of_int (left_x N), of_int (bottom_y N))"
    then show ?thesis using i by simp
  next
    assume "a = (of_int (left_x N), of_int (top_y N))"
    then show ?thesis using i by simp
  next
    assume "a = (fadd (float_of_int (left_x N)) ?p11, of_int (top_y N))"
    then show ?thesis using i f(1,2) by simp
  next
    assume "a = (of_int (center_x N), of_int (top_y N + v_depth N))"
    then show ?thesis using i by simp
  next
    assume "a = (fsub (float_of_int (right_x N)) ?p11, of_int (top_y N))"
    then show ?thesis using i f(3,4) by simp
  next
    assume "a = (of_int (right_x N), of_int (top_y N))"
    then show ?thesis using i by simp
  next
    assume "a = (of_int (right_x N), of_int (bottom_y N))"
    then show ?thesis using i by simp
  next
    assume "a = (of_int (right_x N - stroke N), of_int (bottom_y N))"
    then show ?thesis using i by simp
  next
    assume "a = (of_int (right_x N - stroke N), fadd (float_of_int (top_y N)) ?p08)"
    then show ?thesis using i f(5,6) by simp
  next
    assume "a = (of_int (center_x N), fadd (float_of_int (top_y N + v_depth N)) ?p07)"
    then show ?thesis using i f(7,8) tv by simp
  next
    assume "a = (of_int (left_x N + stroke N), fadd (float_of_int (top_y N)) ?p08)"
    then show ?thesis using i f(5,6) by simp
  next
    assume "a = (of_int (left_x N + stroke N), of_int (bottom_y N))"
    then show ?thesis using i by simp
  qed
qed

lemma in_bbox_m_outer:
  assumes "in_bbox (m_outer N) (x, y)"
  shows "left_x N \<le> int x \<and> int x \<le> right_x N \<and> top_y N \<le> int y \<and> int y \<le> bottom_y N"
proof -
  from assms obtain a b c d where m: "a \<in> set (m_outer N)" "b \<in> set (m_outer N)"
    "c \<in> set (m_outer N)" "d \<in> set (m_outer N)"
    and h: "\<lfloor>fst a\<rfloor> \<le> int x" "int x \<le> \<lceil>fst b\<rceil>" "\<lfloor>snd c\<rfloor> \<le> int y" "int y \<le> \<lceil>snd d\<rceil>"
    unfolding in_bbox_def list_ex_iff by auto
  from m_outer_in_box [OF m(1)] have "left_x N \<le> \<lfloor>fst a\<rfloor>" by (simp add: le_floor_iff)
  moreover from m_outer_in_box [OF m(2)] have "\<lceil>fst b\<rceil> \<le> right_x N" by (simp add: ceiling_le_iff)
  moreover from m_outer_in_box [OF m(3)] have "top_y N \<le> \<lfloor>snd c\<rfloor>" by (simp add: le_floor_iff)
  moreover from m_outer_in_box [OF m(4)] have "\<lceil>snd d\<rceil> \<le> bottom_y N" by (simp add: ceiling_le_iff)
  ultimately show ?thesis using h by linarith
qed

text \<open>
  Claim C9.  Over any polygon rasteriser that stays inside the bounding box of the vertices
  it is given, the glyph mask is 0 at every pixel left of \<open>margin_x\<close>, right of
  \<open>N - margin_x\<close>, above \<open>margin_top\<close> or below \<open>N - margin_bottom\<close>.
\<close>

theorem glyph_mask_within_margins:
  assumes "confined_to_bbox L"
    and "int x < margin_x N \<or> int N - margin_x N < int x \<or>
         int y < margin_top N \<or> int N - margin_bottom N < int y"
  shows "pix (m_mask L N) (x, y) = 0"
proof -
  have "\<not> polygon_cover L (N, N) (m_outer N) (x, y)"
  proof
    assume "polygon_cover L (N, N) (m_outer N) (x, y)"
    with assms(1) have "in_bbox (m_outer N) (x, y)" unfolding confined_to_bbox_def by blast
    from in_bbox_m_outer [OF this] assms(2) show False
      by (simp add: left_x_def right_x_def top_y_def bottom_y_def)
  qed
  then show ?thesis by (simp add: m_mask_def draw_polygon_def Image_new_def)
qed

theorem glyph_mask_within_margins_witness:
  "confined_to_bbox demo_pil \<and> int 3 < margin_x 64 \<and> pix (m_mask demo_pil 64) (3, 30) = 0"
proof -
  have c: "confined_to_bbox demo_pil" by (simp add: confined_to_bbox_def demo_pil_def)
  have "(of_nat 64 :: rat) * (1799 / 10000) - 1 < of_int (margin_x 64)"
    using margin_x_bounds [of 64] by blast
  then have "(of_int 3 :: rat) < of_int (margin_x 64)" by simp
  then have m: "int 3 < margin_x 64" by (simp only: of_int_less_iff of_nat_numeral)
  then have "int 3 < margin_x 64 \<or> int 64 - margin_x 64 < int 3 \<or>
         int 30 < margin_top 64 \<or> int 64 - margin_bottom 64 < int 30" by blast
  from glyph_mask_within_margins [OF c this] c m show ?thesis by blast
qed

lemma big_canvas_offset:
  assumes "2 ^ 51 < N"
  shows "of_nat N / 2 ^ 51 \<le> fmul (float_of_int (stroke N)) (float_lit (7 / 10))"
proof -
  define n :: rat where "n = of_nat N"
  have "(of_nat (2 ^ 51) :: rat) < of_nat N" using assms by (simp only: of_nat_less_iff)
  then have "2 ^ 51 < n" by (simp add: n_def)
  then have "n / 2 ^ 51 \<le> (n * (1249 / 10000) - 1) * (69 / 100)" by simp
  also have "\<dots> \<le> of_int (stroke N) * (69 / 100)"
    using stroke_bounds [of N] by (simp add: n_def)
  also have "\<dots> \<le> fmul (float_of_int (stroke N)) (float_lit (7 / 10))"
    using stroke_offsets [of N] by blast
  finally show ?thesis by (simp add: n_def)
qed

lemma inner_peak_below_outer:
  assumes "8 \<le> N"
  shows "of_int (top_y N + v_depth N) <
         fadd (float_of_int (top_y N + v_depth N)) (fmul (float_of_int (stroke N)) (float_lit (7 / 10)))"
proof -
  let ?k = "top_y N + v_depth N"
  let ?p = "fmul (float_of_int (stroke N)) (float_lit (7 / 10))"
  have k0: "0 \<le> ?k" using top_y_nonneg [of N] v_depth_bounds [of N] by simp
  have kN: "?k \<le> int N"
    using m_outer_vertices [of N] top_y_nonneg [of N]
    by (simp add: bottom_y_def margin_bottom_eq top_y_def)
  have "(1::rat) \<le> of_int (stroke N)" using stroke_pos [OF assms] by simp
  then have "69 / 100 \<le> of_int (stroke N) * (69 / 100 :: rat)" by simp
  also have "\<dots> \<le> ?p" using stroke_offsets [of N] by blast
  finally have p: "69 / 100 \<le> ?p" .
  show ?thesis
  proof (cases "N \<le> 2 ^ 51")
    case True
    have e: "fl (of_int ?k) = of_int ?k" by (rule float_of_int_small [OF k0 kN True])
    have "int N \<le> int (2 ^ 51)" using True by (simp only: of_nat_le_iff)
    then have "2 * ?k + 1 \<le> 2 ^ 53" using kN by simp
    then have "\<bar>2 * ?k + 1\<bar> \<le> 2 ^ 53" using k0 by simp
    from fl_exact [OF this, of "- 1"]
    have h: "fl (of_int ?k + 1 / 2) = of_int ?k + 1 / 2"
      by (simp add: power_int_minus_divide add_divide_distrib)
    have "of_int ?k + 1 / 2 \<le> of_int ?k + ?p" using p by simp
    then have "fl (of_int ?k + 1 / 2) \<le> fl (of_int ?k + ?p)" by (rule fl_mono)
    then have "of_int ?k + 1 / 2 \<le> fadd (float_of_int ?k) ?p"
      unfolding h by (simp only: fadd_def float_of_int_def e)
    then show ?thesis by linarith
  next
    case False
    then have "2 ^ 51 < N" by simp
    from big_canvas_offset [OF this] have "of_nat N / 2 ^ 51 \<le> ?p" .
    moreover have "(of_int ?k :: rat) \<le> of_int (int N)" using kN by (simp only: of_int_le_iff)
    then have "(of_int ?k :: rat) / 2 ^ 51 \<le> of_nat N / 2 ^ 51" by (simp add: divide_right_mono)
    ultimately have "(of_int ?k :: rat) / 2 ^ 51 \<le> ?p" by linarith
    moreover have "0 < ?p" using p by linarith
    moreover have "(0::rat) \<le> of_int ?k" using k0 by simp
    ultimately show ?thesis
      unfolding float_of_int_def [of ?k] by (intro fadd_fl_strict)
  qed
qed

lemma fadd_fl_lower_rel:
  assumes "0 \<le> a" "0 \<le> p"
  shows "(a + p) * (1 - 1 / 2 ^ 52) \<le> fadd (fl a) p"
proof -
  let ?d = "(1::rat) / 2 ^ 53"
  have "a * (1 - ?d) \<le> fl a" using fl_lower [OF assms(1)] .
  moreover have "p * (1 - ?d) \<le> p" using assms(2) by (simp add: algebra_simps)
  ultimately have s: "(a + p) * (1 - ?d) \<le> fl a + p" by (simp add: algebra_simps)
  have x0: "0 \<le> fl a + p" using assms by (simp add: fl_nonneg_iff)
  have "(a + p) * (1 - 1 / 2 ^ 52) \<le> (a + p) * ((1 - ?d) * (1 - ?d))"
    using assms by (intro mult_left_mono) simp_all
  also have "\<dots> = ((a + p) * (1 - ?d)) * (1 - ?d)" by (simp add: algebra_simps)
  also have "\<dots> \<le> (fl a + p) * (1 - ?d)"
    using s by (intro mult_right_mono) simp_all
  also have "\<dots> \<le> fl (fl a + p)" using fl_lower [OF x0] .
  finally show ?thesis by (simp add: fadd_def)
qed

text \<open>
  The inner V is the shallower one: from where its diagonals start down to its peak it
  drops by less than \<open>v_depth\<close>, the drop of the outer V.
\<close>

lemma inner_dip_shallower:
  assumes "8 \<le> N"
  shows "fadd (float_of_int (top_y N + v_depth N)) (fmul (float_of_int (stroke N)) (float_lit (7 / 10)))
         - fadd (float_of_int (top_y N)) (fmul (float_of_int (stroke N)) (float_lit (8 / 10)))
         < of_int (v_depth N)"
proof -
  define n :: rat where "n = of_nat N"
  define T :: rat where "T = of_int (top_y N)"
  define S :: rat where "S = of_int (stroke N)"
  define V :: rat where "V = of_int (v_depth N)"
  define p07 where "p07 = fmul (float_of_int (stroke N)) (float_lit (7 / 10))"
  define p08 where "p08 = fmul (float_of_int (stroke N)) (float_lit (8 / 10))"
  have n0: "0 \<le> n" by (simp add: n_def)
  have t: "0 \<le> T" "T \<le> n * (2201 / 10000)"
    using margin_top_bounds [of N] by (simp_all add: T_def n_def top_y_def)
  have s: "0 \<le> S" "S \<le> n * (1251 / 10000)" "n * (1249 / 10000) - 1 < S"
    using stroke_bounds [of N] by (simp_all add: S_def n_def)
  have s1: "1 \<le> S" using stroke_pos [OF assms] by (simp add: S_def)
  have v: "0 \<le> V" "V \<le> n * (2801 / 10000)"
    using v_depth_bounds [of N] by (simp_all add: V_def n_def)
  have p: "0 \<le> p08" "S * (79 / 100) \<le> p08" "0 \<le> p07" "p07 \<le> S * (71 / 100)"
    using stroke_offsets [of N] by (simp_all add: p08_def p07_def S_def)
  have tv: "of_int (top_y N + v_depth N) = T + V" by (simp add: T_def V_def)
  have tv0: "0 \<le> T + V" using t v by simp
  have "fadd (fl (T + V)) p07 \<le> (T + V + p07) * (1 + 1 / 2 ^ 51)"
    by (rule fadd_fl_upper [OF tv0 p(3)])
  also have "\<dots> = (T + V + p07) + (T + V + p07) / 2 ^ 51" by (simp add: algebra_simps)
  finally have hi0: "fadd (fl (T + V)) p07 \<le> (T + V + p07) + (T + V + p07) / 2 ^ 51" .
  have "T + V + p07 \<le> n" using t v p s n0 by linarith
  then have "(T + V + p07) / 2 ^ 51 \<le> n / 2 ^ 51" by (intro divide_right_mono) simp_all
  with hi0 have hi: "fadd (fl (T + V)) p07 \<le> T + V + p07 + n / 2 ^ 51" by linarith
  have "T + p08 - n / 2 ^ 52 \<le> (T + p08) - (T + p08) / 2 ^ 52"
  proof -
    have "p08 \<le> S * (81 / 100)"
      using stroke_offsets [of N] by (simp add: p08_def S_def)
    then have "T + p08 \<le> n" using t s n0 by linarith
    then have "(T + p08) / 2 ^ 52 \<le> n / 2 ^ 52" by (intro divide_right_mono) simp_all
    then show ?thesis by linarith
  qed
  also have "\<dots> = (T + p08) * (1 - 1 / 2 ^ 52)" by (simp add: algebra_simps)
  also have "\<dots> \<le> fadd (fl T) p08" by (rule fadd_fl_lower_rel [OF t(1) p(1)])
  finally have lo: "T + p08 - n / 2 ^ 52 \<le> fadd (fl T) p08" .
  have gap: "n / 2 ^ 51 + n / 2 ^ 52 < S * (8 / 100)"
  proof (cases "N \<le> 2 ^ 46")
    case True
    then have "(of_nat N :: rat) \<le> of_nat (2 ^ 46)" by (simp only: of_nat_le_iff)
    then have "n \<le> 2 ^ 46" by (simp add: n_def)
    then have "n / 2 ^ 51 + n / 2 ^ 52 \<le> 3 / 64" by simp
    with s1 show ?thesis by linarith
  next
    case False
    then have "(2::nat) ^ 46 < N" by simp
    then have "(of_nat (2 ^ 46) :: rat) < of_nat N" by (simp only: of_nat_less_iff)
    then have "2 ^ 46 < n" by (simp add: n_def)
    then have "n / 2 ^ 51 + n / 2 ^ 52 < (n * (1249 / 10000) - 1) * (8 / 100)" by simp
    also have "\<dots> \<le> S * (8 / 100)" using s(3) by simp
    finally show ?thesis .
  qed
  have "fadd (fl (T + V)) p07 - fadd (fl T) p08 < V"
    using hi lo gap p by linarith
  then show ?thesis
    by (simp add: p07_def p08_def T_def V_def float_of_int_def)
qed



section \<open>The rounded-rectangle mask\<close>

lemma corner_radius_bounds:
  assumes "64 \<le> N"
  shows "14 \<le> corner_radius N \<and> 2 * corner_radius N \<le> int N"
proof -
  have "(of_nat 64 :: rat) \<le> of_nat N" using assms by (simp only: of_nat_le_iff)
  then have n: "(64::rat) \<le> of_nat N" by simp
  have "(of_nat N :: rat) * (2199 / 10000) - 1 < of_int (margin_top N)"
    using margin_top_bounds [of N] by blast
  with n have "(of_int 13 :: rat) < of_int (margin_top N)" by simp
  then have "13 < margin_top N" by (simp only: of_int_less_iff)
  moreover have "top_y N \<le> bottom_y N"
    using top_less_bottom [of N] assms by simp
  ultimately show ?thesis
    by (simp add: corner_radius_eq top_y_def bottom_y_def margin_bottom_eq)
qed

lemma rounded_mask_pix:
  "pix (rounded_mask L N) p =
     (if rounded_rectangle_cover L (N, N) (0, 0, int N, int N) (corner_radius N) p then 255 else 0)"
  by (simp add: rounded_mask_def draw_rounded_rectangle_def Image_new_def)

lemma square_gt:
  fixes r :: int
  assumes "4 \<le> r"
  shows "r * r < 2 * ((r - 1) * (r - 1))"
proof -
  have "0 \<le> (r - 4) * r" using assms by (intro mult_nonneg_nonneg) simp_all
  moreover have "2 * ((r - 1) * (r - 1)) - r * r = (r - 4) * r + 2" by (simp add: algebra_simps)
  ultimately show ?thesis by linarith
qed

text \<open>
  Claim C5.  With the rounded rectangle of the specification as the rasteriser, for every
  \<open>N\<close> from 64 on the mask is 255 inside the region and 0 outside; a pixel of a corner
  square that lies farther than the radius from the square's inner corner is 0; the four
  corner pixels of the canvas are 0 and the centre pixel is 255.
\<close>

theorem rounded_mask_corners_and_center:
  assumes "rounded_rectangle_cover L = spec_rounded_rectangle_cover" and "64 \<le> N"
  shows "(\<forall>p. pix (rounded_mask L N) p =
            (if spec_rounded_rectangle_cover (N, N) (0, 0, int N, int N) (corner_radius N) p
             then 255 else 0)) \<and>
         (\<forall>x y. x < N \<and> y < N \<and>
            (int x < corner_radius N \<or> int N - corner_radius N < int x) \<and>
            (int y < corner_radius N \<or> int N - corner_radius N < int y) \<and>
            corner_radius N * corner_radius N <
              (if int x < corner_radius N then (int x - corner_radius N) * (int x - corner_radius N)
               else (int x - (int N - corner_radius N)) * (int x - (int N - corner_radius N))) +
              (if int y < corner_radius N then (int y - corner_radius N) * (int y - corner_radius N)
               else (int y - (int N - corner_radius N)) * (int y - (int N - corner_radius N)))
            \<longrightarrow> pix (rounded_mask L N) (x, y) = 0) \<and>
         pix (rounded_mask L N) (0, 0) = 0 \<and>
         pix (rounded_mask L N) (N - 1, 0) = 0 \<and>
         pix (rounded_mask L N) (0, N - 1) = 0 \<and>
         pix (rounded_mask L N) (N - 1, N - 1) = 0 \<and>
         pix (rounded_mask L N) (N div 2, N div 2) = 255"
proof -
  define r where "r = corner_radius N"
  from corner_radius_bounds [OF assms(2)] have r: "14 \<le> r" "2 * r \<le> int N" by (simp_all add: r_def)
  have n: "0 < N" "int (N - 1) = int N - 1" using assms(2) by simp_all
  have sq: "r * r < 2 * ((r - 1) * (r - 1))" using square_gt [of r] r by simp
  have sq0: "0 < r * r" "0 \<le> (r - 1) * (r - 1)" "0 < (r - 1) * (r - 1)" using r by simp_all
  have pixel: "pix (rounded_mask L N) p =
            (if spec_rounded_rectangle_cover (N, N) (0, 0, int N, int N) r p then 255 else 0)" for p
    by (simp add: rounded_mask_pix assms(1) r_def)
  have arcs: "pix (rounded_mask L N) (x, y) = 0"
    if "x < N" "y < N" "int x < r \<or> int N - r < int x" "int y < r \<or> int N - r < int y"
      "r * r < (if int x < r then (int x - r) * (int x - r)
               else (int x - (int N - r)) * (int x - (int N - r))) +
              (if int y < r then (int y - r) * (int y - r)
               else (int y - (int N - r)) * (int y - (int N - r)))" for x y
  proof -
    have cx: "max r (min (int N - r) (int x)) = (if int x < r then r else int N - r)"
      using that(3) r by auto
    have cy: "max r (min (int N - r) (int y)) = (if int y < r then r else int N - r)"
      using that(4) r by auto
    have "\<not> (int x - max r (min (int N - r) (int x))) * (int x - max r (min (int N - r) (int x))) +
            (int y - max r (min (int N - r) (int y))) * (int y - max r (min (int N - r) (int y)))
            \<le> r * r"
      unfolding cx cy using that(5) by (simp split: if_splits)
    then show ?thesis
      unfolding pixel spec_rounded_rectangle_cover_def by (simp add: Let_def)
  qed
  have c00: "pix (rounded_mask L N) (0, 0) = 0"
    by (rule arcs) (use r n sq0 in simp_all)
  have c10: "pix (rounded_mask L N) (N - 1, 0) = 0"
    by (rule arcs) (use r n sq0 in \<open>simp_all add: algebra_simps\<close>)
  have c01: "pix (rounded_mask L N) (0, N - 1) = 0"
    by (rule arcs) (use r n sq0 in \<open>simp_all add: algebra_simps\<close>)
  have c11: "pix (rounded_mask L N) (N - 1, N - 1) = 0"
    by (rule arcs) (use r n sq in simp_all)
  have h: "r \<le> int (N div 2)" "int (N div 2) \<le> int N - r" "N div 2 < N"
    using r n by (simp_all add: zdiv_int)
  then have "max r (min (int N - r) (int (N div 2))) = int (N div 2)" by simp
  then have mid: "pix (rounded_mask L N) (N div 2, N div 2) = 255"
    unfolding pixel spec_rounded_rectangle_cover_def using h r by (simp add: Let_def)
  show ?thesis
    using pixel arcs c00 c10 c01 c11 mid unfolding r_def by blast
qed

theorem rounded_mask_corners_and_center_witness:
  "rounded_rectangle_cover demo_pil = spec_rounded_rectangle_cover \<and> (64::nat) \<le> 64 \<and>
   pix (rounded_mask demo_pil 64) (0, 0) = 0 \<and>
   pix (rounded_mask demo_pil 64) (63, 0) = 0 \<and>
   pix (rounded_mask demo_pil 64) (0, 63) = 0 \<and>
   pix (rounded_mask demo_pil 64) (63, 63) = 0 \<and>
   pix (rounded_mask demo_pil 64) (32, 32) = 255"
proof -
  have a: "rounded_rectangle_cover demo_pil = spec_rounded_rectangle_cover"
    by (simp add: demo_pil_def)
  have b: "(64::nat) \<le> 64" by simp
  from rounded_mask_corners_and_center [OF a b]
  have c: "pix (rounded_mask demo_pil 64) (0, 0) = 0"
    "pix (rounded_mask demo_pil 64) (64 - 1, 0) = 0"
    "pix (rounded_mask demo_pil 64) (0, 64 - 1) = 0"
    "pix (rounded_mask demo_pil 64) (64 - 1, 64 - 1) = 0"
    "pix (rounded_mask demo_pil 64) (64 div 2, 64 div 2) = 255"
    by blast+
  have "(64::nat) - 1 = 63" "(64::nat) div 2 = 32" by simp_all
  with c a b show ?thesis by (simp only:) 
qed

section \<open>The import guard\<close>

lemma module_imports_available:
  "pil_importable w \<Longrightarrow>
   module_imports w =
     (w\<lparr>namespace := namespace w \<union> {Image, ImageDraw, ImageFilter, ImageChops}\<rparr>, None)"
  by (simp add: module_imports_def import_PIL_def Un_commute insert_commute)

lemma module_imports_pip_failed:
  "\<not> pil_importable w \<Longrightarrow> \<not> pip_succeeds w \<Longrightarrow>
   module_imports w = (w\<lparr>pip_runs := Suc (pip_runs w)\<rparr>, Some CalledProcessError)"
  by (simp add: module_imports_def import_PIL_def check_call_pip_def Let_def)

lemma module_imports_fallback:
  "\<not> pil_importable w \<Longrightarrow> pip_succeeds w \<Longrightarrow> importable_after_install w \<Longrightarrow>
   module_imports w =
     (w\<lparr>pip_runs := Suc (pip_runs w), pil_importable := True,
        namespace := namespace w \<union> {Image, ImageDraw, ImageFilter}\<rparr>, None)"
  by (simp add: module_imports_def import_PIL_def check_call_pip_def Let_def Un_commute insert_commute)

lemma module_imports_retry_failed:
  "\<not> pil_importable w \<Longrightarrow> pip_succeeds w \<Longrightarrow> \<not> importable_after_install w \<Longrightarrow>
   module_imports w =
     (w\<lparr>pip_runs := Suc (pip_runs w), pil_importable := False\<rparr>, Some ImportError)"
  by (simp add: module_imports_def import_PIL_def check_call_pip_def Let_def)

text \<open>
  Claim C7.  If \<open>PIL\<close> cannot be imported when the module starts, the import guard runs
  the installer exactly once.  If the installer fails, the guard is left by its
  \<open>CalledProcessError\<close>, no name is bound and the script ends with that error, \<open>main\<close>
  never running.  If it succeeds, the import is retried: it binds \<open>Image\<close>, \<open>ImageDraw\<close> and
  \<open>ImageFilter\<close>, or raises \<open>ImportError\<close> again, which ends the script.
\<close>

theorem import_guard_installs_once:
  assumes "\<not> pil_importable w"
  shows "pip_runs (fst (module_imports w)) = Suc (pip_runs w) \<and>
         (\<not> pip_succeeds w \<longrightarrow>
            snd (module_imports w) = Some CalledProcessError \<and>
            namespace (fst (module_imports w)) = namespace w \<and>
            run_script L w = Inl CalledProcessError) \<and>
         (pip_succeeds w \<longrightarrow>
            (importable_after_install w \<longrightarrow>
               snd (module_imports w) = None \<and>
               namespace (fst (module_imports w)) = namespace w \<union> {Image, ImageDraw, ImageFilter}) \<and>
            (\<not> importable_after_install w \<longrightarrow>
               snd (module_imports w) = Some ImportError \<and> run_script L w = Inl ImportError))"
proof (cases "pip_succeeds w")
  case False
  let ?w0 = "w\<lparr>namespace := {}\<rparr>"
  have "\<not> pil_importable ?w0" "\<not> pip_succeeds ?w0" using assms False by simp_all
  from module_imports_pip_failed [OF this]
  have "run_script L w = Inl CalledProcessError" by (simp add: run_script_def)
  with module_imports_pip_failed [OF assms False] False show ?thesis by simp
next
  case True
  show ?thesis
  proof (cases "importable_after_install w")
    case ok: True
    from module_imports_fallback [OF assms True ok] True ok show ?thesis by simp
  next
    case no: False
    let ?w0 = "w\<lparr>namespace := {}\<rparr>"
    have "\<not> pil_importable ?w0" "pip_succeeds ?w0" "\<not> importable_after_install ?w0"
      using assms True no by simp_all
    from module_imports_retry_failed [OF this]
    have "run_script L w = Inl ImportError" by (simp add: run_script_def)
    with module_imports_retry_failed [OF assms True no] True no show ?thesis by simp
  qed
qed

theorem import_guard_installs_once_witness:
  "\<not> pil_importable (demo_world False False) \<and>
   pip_runs (fst (module_imports (demo_world False False))) = 1 \<and>
   snd (module_imports (demo_world False False)) = Some CalledProcessError \<and>
   run_script demo_pil (demo_world False False) = Inl CalledProcessError"
  using import_guard_installs_once [of "demo_world False False" demo_pil]
  by (simp add: demo_world_def)

section \<open>The pipeline\<close>

lemma path_join_relative:
  "\<exists>pre. \<forall>f. f \<noteq> [] \<and> hd f \<noteq> CHR ''/'' \<longrightarrow> path_join d f = pre @ f"
proof (cases "d = [] \<or> last d = CHR ''/''")
  case True
  then have "\<forall>f. f \<noteq> [] \<and> hd f \<noteq> CHR ''/'' \<longrightarrow> path_join d f = d @ f"
    by (simp add: path_join_def)
  then show ?thesis ..
next
  case False
  then have "\<forall>f. f \<noteq> [] \<and> hd f \<noteq> CHR ''/'' \<longrightarrow> path_join d f = (d @ ''/'') @ f"
    by (simp add: path_join_def)
  then show ?thesis ..
qed

lemma lookup_Image_after_save [simp]: "namespace (save_png img p w) = namespace w"
  by (simp add: save_png_def)

text \<open>The files \<open>generate_all_sizes\<close> and \<open>update_contents_json\<close> leave behind.\<close>

lemma generate_all_sizes_result:
  assumes "Image \<in> namespace w"
  shows "generate_all_sizes L icon d w =
    Inr (save_png icon (path_join d ''AppIcon.png'')
      (save_png (resize L icon (1024, 1024)) (path_join d ''icon_512x512@2x.png'')
      (save_png (resize L icon (512, 512)) (path_join d ''icon_512x512.png'')
      (save_png (resize L icon (512, 512)) (path_join d ''icon_256x256@2x.png'')
      (save_png (resize L icon (256, 256)) (path_join d ''icon_256x256.png'')
      (save_png (resize L icon (256, 256)) (path_join d ''icon_128x128@2x.png'')
      (save_png (resize L icon (128, 128)) (path_join d ''icon_128x128.png'')
      (save_png (resize L icon (64, 64)) (path_join d ''icon_32x32@2x.png'')
      (save_png (resize L icon (32, 32)) (path_join d ''icon_32x32.png'')
      (save_png (resize L icon (32, 32)) (path_join d ''icon_16x16@2x.png'')
      (save_png (resize L icon (16, 16)) (path_join d ''icon_16x16.png'')
      (makedirs d w))))))))))))"
proof -
  have "lookup (namespace (makedirs d w)) Image = Inr ()"
    using assms by (simp add: lookup_def makedirs_def)
  then show ?thesis
    by (simp add: generate_all_sizes_def sizes_def lookup_def Let_def)
qed

lemma run_script_available:
  assumes "pil_importable w"
  shows "\<exists>icon.
    create_icon L {Image, ImageDraw, ImageFilter, ImageChops} 1024 = Inr icon \<and>
    width icon = 1024 \<and> height icon = 1024 \<and>
    run_script L w =
      Inr (update_contents_json (output_dir_of w)
        (save_png icon (path_join (output_dir_of w) ''AppIcon.png'')
        (save_png (resize L icon (1024, 1024)) (path_join (output_dir_of w) ''icon_512x512@2x.png'')
        (save_png (resize L icon (512, 512)) (path_join (output_dir_of w) ''icon_512x512.png'')
        (save_png (resize L icon (512, 512)) (path_join (output_dir_of w) ''icon_256x256@2x.png'')
        (save_png (resize L icon (256, 256)) (path_join (output_dir_of w) ''icon_256x256.png'')
        (save_png (resize L icon (256, 256)) (path_join (output_dir_of w) ''icon_128x128@2x.png'')
        (save_png (resize L icon (128, 128)) (path_join (output_dir_of w) ''icon_128x128.png'')
        (save_png (resize L icon (64, 64)) (path_join (output_dir_of w) ''icon_32x32@2x.png'')
        (save_png (resize L icon (32, 32)) (path_join (output_dir_of w) ''icon_32x32.png'')
        (save_png (resize L icon (32, 32)) (path_join (output_dir_of w) ''icon_16x16@2x.png'')
        (save_png (resize L icon (16, 16)) (path_join (output_dir_of w) ''icon_16x16.png'')
        (makedirs (output_dir_of w)
           (w\<lparr>namespace := {Image, ImageDraw, ImageFilter, ImageChops}\<rparr>))))))))))))))"
proof -
  let ?ns = "{Image, ImageDraw, ImageFilter, ImageChops}"
  let ?w0 = "w\<lparr>namespace := {}\<rparr>"
  let ?w1 = "w\<lparr>namespace := ?ns\<rparr>"
  have imp: "module_imports ?w0 = (?w1, None)"
    using assms module_imports_available [of ?w0] by simp
  from create_icon_ok [of ?ns L 1024]
  obtain icon where icon: "create_icon L ?ns 1024 = Inr icon" "width icon = 1024" "height icon = 1024"
    by auto
  have d1: "output_dir_of ?w1 = output_dir_of w" by (simp add: output_dir_of_def)
  have "run_script L w = Inr (update_contents_json (output_dir_of w)
        (save_png icon (path_join (output_dir_of w) ''AppIcon.png'')
        (save_png (resize L icon (1024, 1024)) (path_join (output_dir_of w) ''icon_512x512@2x.png'')
        (save_png (resize L icon (512, 512)) (path_join (output_dir_of w) ''icon_512x512.png'')
        (save_png (resize L icon (512, 512)) (path_join (output_dir_of w) ''icon_256x256@2x.png'')
        (save_png (resize L icon (256, 256)) (path_join (output_dir_of w) ''icon_256x256.png'')
        (save_png (resize L icon (256, 256)) (path_join (output_dir_of w) ''icon_128x128@2x.png'')
        (save_png (resize L icon (128, 128)) (path_join (output_dir_of w) ''icon_128x128.png'')
        (save_png (resize L icon (64, 64)) (path_join (output_dir_of w) ''icon_32x32@2x.png'')
        (save_png (resize L icon (32, 32)) (path_join (output_dir_of w) ''icon_32x32.png'')
        (save_png (resize L icon (32, 32)) (path_join (output_dir_of w) ''icon_16x16@2x.png'')
        (save_png (resize L icon (16, 16)) (path_join (output_dir_of w) ''icon_16x16.png'')
        (makedirs (output_dir_of w) ?w1)))))))))))))"
    by (simp add: run_script_def imp main_def icon d1 generate_all_sizes_result Let_def)
  with icon show ?thesis by blast
qed


text \<open>
  Claim C8.  On the fallback path (the first import fails, the installation succeeds, the
  retried import succeeds) the module binds \<open>Image\<close>, \<open>ImageDraw\<close> and \<open>ImageFilter\<close> only.
  \<open>create_icon\<close> then runs through both \<open>alpha_composite\<close> calls and raises \<open>NameError\<close>
  at the lookup of \<open>ImageChops\<close>, and the script ends with that error.  A run of the script
  that completes had \<open>PIL\<close> importable at the start.
\<close>

theorem fallback_import_lacks_ImageChops:
  "(\<not> pil_importable w \<and> pip_succeeds w \<and> importable_after_install w \<longrightarrow>
      snd (module_imports (w\<lparr>namespace := {}\<rparr>)) = None \<and>
      namespace (fst (module_imports (w\<lparr>namespace := {}\<rparr>))) = {Image, ImageDraw, ImageFilter} \<and>
      (\<exists>masked glyph over_glow flat.
         alpha_composite L masked (glow_layer L N) = Inr over_glow \<and>
         alpha_composite L over_glow glyph = Inr flat \<and>
         create_icon L {Image, ImageDraw, ImageFilter} N =
           bindE (lookup {Image, ImageDraw, ImageFilter} ImageChops)
             (\<lambda>_. putalpha flat (multiply (getchannel_A flat) (rounded_mask L N)))) \<and>
      create_icon L {Image, ImageDraw, ImageFilter} N = Inl NameError \<and>
      run_script L w = Inl NameError) \<and>
   (run_script L w = Inr w' \<longrightarrow> pil_importable w)"
proof -
  let ?ns = "{Image, ImageDraw, ImageFilter}"
  let ?w0 = "w\<lparr>namespace := {}\<rparr>"
  have stages: "\<exists>masked glyph over_glow flat.
         alpha_composite L masked (glow_layer L N) = Inr over_glow \<and>
         alpha_composite L over_glow glyph = Inr flat \<and>
         create_icon L ?ns N =
           bindE (lookup ?ns ImageChops)
             (\<lambda>_. putalpha flat (multiply (getchannel_A flat) (rounded_mask L N)))"
    using create_icon_stages [of ?ns N L] by blast
  have ne: "create_icon L ?ns M = Inl NameError" for M
    by (rule create_icon_without_ImageChops) simp_all
  have fb: "module_imports ?w0 =
      (?w0\<lparr>pip_runs := Suc (pip_runs ?w0), pil_importable := True,
            namespace := namespace ?w0 \<union> ?ns\<rparr>, None)"
    if "\<not> pil_importable w" "pip_succeeds w" "importable_after_install w"
    by (rule module_imports_fallback) (use that in simp_all)
  have run: "run_script L w = Inl NameError"
    if "\<not> pil_importable w" "pip_succeeds w" "importable_after_install w"
    using fb [OF that] ne [of 1024] by (simp add: run_script_def main_def)
  have needs: "pil_importable w" if r: "run_script L w = Inr w'"
  proof (rule ccontr)
    assume n: "\<not> pil_importable w"
    then have n0: "\<not> pil_importable ?w0" by simp
    show False
    proof (cases "pip_succeeds w")
      case False
      then have "\<not> pip_succeeds ?w0" by simp
      from module_imports_pip_failed [OF n0 this] r show False by (simp add: run_script_def)
    next
      case True
      show False
      proof (cases "importable_after_install w")
        case True
        from run [OF n \<open>pip_succeeds w\<close> True] r show False by simp
      next
        case False
        have "pip_succeeds ?w0" "\<not> importable_after_install ?w0"
          using \<open>pip_succeeds w\<close> False by simp_all
        from module_imports_retry_failed [OF n0 this] r show False by (simp add: run_script_def)
      qed
    qed
  qed
  show ?thesis using stages ne [of N] fb run needs by simp
qed

theorem fallback_import_lacks_ImageChops_witness:
  "\<not> pil_importable (demo_world False True) \<and> pip_succeeds (demo_world False True) \<and>
   importable_after_install (demo_world False True) \<and>
   create_icon demo_pil {Image, ImageDraw, ImageFilter} 1024 = Inl NameError \<and>
   run_script demo_pil (demo_world False True) = Inl NameError \<and>
   (\<exists>w'. run_script demo_pil (demo_world True True) = Inr w') \<and>
   pil_importable (demo_world True True)"
proof -
  have a: "\<not> pil_importable (demo_world False True)" "pip_succeeds (demo_world False True)"
    "importable_after_install (demo_world False True)"
    by (simp_all add: demo_world_def)
  have "pil_importable (demo_world True True)" by (simp add: demo_world_def)
  from run_script_available [OF this, of demo_pil]
  obtain w' where r: "run_script demo_pil (demo_world True True) = Inr w'" by blast
  from fallback_import_lacks_ImageChops [of "demo_world False True" demo_pil 1024] a
  have "create_icon demo_pil {Image, ImageDraw, ImageFilter} 1024 = Inl NameError"
    "run_script demo_pil (demo_world False True) = Inl NameError" by simp_all
  moreover from fallback_import_lacks_ImageChops [of "demo_world True True" demo_pil 1024 w'] r
  have "pil_importable (demo_world True True)" by simp
  ultimately show ?thesis using a r by blast
qed


theorem composite_order_and_final_mask_witness:
  "{Image, ImageDraw, ImageFilter, ImageChops} \<subseteq> (UNIV :: pil_name set) \<and>
   pix (rounded_mask demo_pil 64) (0, 0) = 0 \<and>
   (\<exists>img. create_icon demo_pil UNIV 64 = Inr img \<and> alpha (pix img (0, 0)) = 0)"
proof -
  have a: "{Image, ImageDraw, ImageFilter, ImageChops} \<subseteq> (UNIV :: pil_name set)" by simp
  have r: "corner_radius 64 = 14" by code_simp
  have m: "pix (rounded_mask demo_pil 64) (0, 0) = 0"
    by (simp add: rounded_mask_def draw_rounded_rectangle_def demo_pil_def Image_new_def r
        spec_rounded_rectangle_cover_def)
  from composite_order_and_final_mask [OF a, of 64 demo_pil]
  obtain img where "create_icon demo_pil UNIV 64 = Inr img"
    and "\<forall>p. pix (rounded_mask demo_pil 64) p = 0 \<longrightarrow> alpha (pix img p) = 0"
    by blast
  with m a show ?thesis by blast
qed


end
